theory Spec2Isabelle
  imports Complex_Main "HOL-Library.Word" "HOL-Library.Signed_Division" "HOL-Library.Sublist"
begin

section \<open>Bounded queue: \<open>ring_buffer<T>\<close> (Inc/core/ring_buffer.h)\<close>

text \<open>
  The class holds a pointer to caller-supplied storage, the number of elements of that
  storage and the two indices.  The storage is a list; the three \<open>uint16_t\<close> members are
  natural numbers.  In \<open>(prd + 1) % buffer_size\<close> both operands are promoted to \<open>int\<close>
  before the addition, so the sum does not wrap at 16 bits, and the remainder is below
  \<open>buffer_size\<close>, so the conversion back to \<open>uint16_t\<close> changes nothing.  The constructor
  documents \<open>bufferSize > 1\<close>; a remainder by 0 is undefined in C++ (in HOL it is the
  dividend), so every statement below that depends on it assumes \<open>1 < buffer_size\<close>.
\<close>

record 'a ring_buffer =
  buffer :: "'a list"
  buffer_size :: nat
  prd :: nat
  cns :: nat

definition ring_buffer_init :: "'a list \<Rightarrow> nat \<Rightarrow> 'a ring_buffer" where
  "ring_buffer_init buf bufferSize =
     \<lparr>buffer = buf, buffer_size = bufferSize, prd = 0, cns = 0\<rparr>"

text \<open>\<open>push\<close> returns the flag and the queue after the call.\<close>

definition push :: "'a \<Rightarrow> 'a ring_buffer \<Rightarrow> bool \<times> 'a ring_buffer" where
  "push item q =
     (let next = (prd q + 1) mod buffer_size q in
      if next = cns q then (False, q)
      else (True, q\<lparr>buffer := (buffer q)[prd q mod buffer_size q := item], prd := next\<rparr>))"

text \<open>\<open>pop\<close> returns \<open>None\<close> for \<open>false\<close> (the out parameter is then left alone) and
  \<open>Some out\<close> for \<open>true\<close>, with the queue after the call.\<close>

definition pop :: "'a ring_buffer \<Rightarrow> 'a option \<times> 'a ring_buffer" where
  "pop q =
     (if cns q = prd q then (None, q)
      else (Some (buffer q ! (cns q mod buffer_size q)),
            q\<lparr>cns := (cns q + 1) mod buffer_size q\<rparr>))"

text \<open>A sequence of calls by the producer and the consumer, each call atomic.  The result
  lists the items whose \<open>push\<close> returned true, the items returned by \<open>pop\<close>, and the final
  queue.\<close>

datatype 'a rb_op = Push 'a | Pop

fun run_ops :: "'a rb_op list \<Rightarrow> 'a ring_buffer \<Rightarrow> 'a list \<times> 'a list \<times> 'a ring_buffer" where
  "run_ops [] q = ([], [], q)"
| "run_ops (Push x # ops) q =
     (case push x q of (ok, q') \<Rightarrow>
        (case run_ops ops q' of (ins, outs, q'') \<Rightarrow>
           ((if ok then [x] else []) @ ins, outs, q'')))"
| "run_ops (Pop # ops) q =
     (case pop q of (r, q') \<Rightarrow>
        (case run_ops ops q' of (ins, outs, q'') \<Rightarrow>
           (ins, (case r of None \<Rightarrow> [] | Some y \<Rightarrow> [y]) @ outs, q'')))"

subsection \<open>Abstraction: the queued elements\<close>

text \<open>A queue is well formed when the storage really has \<open>buffer_size\<close> elements and the
  indices are inside it; its content is read from the consumer index up to the producer
  index, modulo the size.\<close>

definition rb_wf :: "'a ring_buffer \<Rightarrow> bool" where
  "rb_wf q \<longleftrightarrow> 1 < buffer_size q \<and> buffer_size q \<le> length (buffer q)
     \<and> prd q < buffer_size q \<and> cns q < buffer_size q"

definition rb_count :: "'a ring_buffer \<Rightarrow> nat" where
  "rb_count q = (prd q + buffer_size q - cns q) mod buffer_size q"

definition rb_contents :: "'a ring_buffer \<Rightarrow> 'a list" where
  "rb_contents q = map (\<lambda>k. buffer q ! ((cns q + k) mod buffer_size q)) [0 ..< rb_count q]"

definition rb_full :: "'a ring_buffer \<Rightarrow> bool" where
  "rb_full q \<longleftrightarrow> (prd q + 1) mod buffer_size q = cns q"

definition rb_empty :: "'a ring_buffer \<Rightarrow> bool" where
  "rb_empty q \<longleftrightarrow> prd q = cns q"

definition rb_index_ok :: "'a ring_buffer \<Rightarrow> bool" where
  "rb_index_ok q \<longleftrightarrow> prd q < buffer_size q \<and> cns q < buffer_size q"

definition rb_drained :: "'a ring_buffer \<Rightarrow> 'a ring_buffer" where
  "rb_drained q = q\<lparr>cns := prd q\<rparr>"

section \<open>Frame view and frame parser: \<open>cmnd_frame\<close>, \<open>cmnd_parser\<close>\<close>

text \<open>
  A \<open>uint16_t\<close> member is a natural number; where the source assigns the result of an
  \<open>int\<close> expression to it, the conversion \<open>u16\<close> (reduction modulo \<open>2^16\<close>) is written out.
  Bytes (\<open>uint8_t\<close>) and \<open>char\<close> are both \<open>char\<close>.  A pointer into the work buffer is the
  offset of the cell it points to, \<open>None\<close> is \<open>nullptr\<close>.
\<close>

definition u16 :: "int \<Rightarrow> nat" where
  "u16 i = nat (i mod 65536)"

abbreviation NUL :: char where
  "NUL \<equiv> CHR 0x00"

text \<open>\<open>struct cmnd_frame\<close>: two non-owning (pointer, length) pairs into the work buffer.\<close>

record cmnd_frame =
  path :: "nat option"
  path_len :: nat
  data :: "nat option"
  data_len :: nat

datatype state_t =
  WAIT_START | WAIT_P | WAIT_P_COLON | READ_PATH | WAIT_D | WAIT_D_COLON | READ_DATA
  | WAIT_END | ERROR

text \<open>The parser object.  The two queues are references in the source; here the parser
  state carries them and \<open>poll\<close> returns them updated.  \<open>workBuffer\<close> is the caller's
  scratch storage and \<open>work_buf_size\<close> the size passed to the constructor.\<close>

record cmnd_parser =
  rx_queue :: "char ring_buffer"
  frame_queue :: "cmnd_frame ring_buffer"
  workBuffer :: "char list"
  work_buf_size :: nat
  idx :: nat
  path_ptr :: "nat option"
  path_len :: nat
  data_ptr :: "nat option"
  data_len :: nat
  state :: state_t

definition cmnd_parser_init ::
  "char ring_buffer \<Rightarrow> cmnd_frame ring_buffer \<Rightarrow> char list \<Rightarrow> nat \<Rightarrow> cmnd_parser" where
  "cmnd_parser_init rx_buffer frame_buffer work_buffer work_buffer_size =
     \<lparr>rx_queue = rx_buffer, frame_queue = frame_buffer, workBuffer = work_buffer,
      work_buf_size = work_buffer_size, idx = 0, path_ptr = None, path_len = 0,
      data_ptr = None, data_len = 0, state = WAIT_START\<rparr>"

definition reset :: "cmnd_parser \<Rightarrow> cmnd_parser" where
  "reset s = s\<lparr>state := WAIT_START, idx := 0, path_ptr := None, data_ptr := None,
               path_len := 0, data_len := 0\<rparr>"

text \<open>\<open>workBuffer[idx++] = c\<close>.\<close>

definition store_byte :: "char \<Rightarrow> cmnd_parser \<Rightarrow> cmnd_parser" where
  "store_byte c s = s\<lparr>workBuffer := (workBuffer s)[idx s := c], idx := u16 (int (idx s) + 1)\<rparr>"

text \<open>
  The body of the \<open>while\<close> loop of \<open>cmnd_parser::poll\<close> for one popped byte \<open>ch\<close>: the
  overflow guard first, then the \<open>switch\<close> on the state.  In \<open>READ_DATA\<close> the length is
  \<open>idx - (data_ptr - workBuffer) - 1\<close>; \<open>READ_DATA\<close> is entered only from \<open>WAIT_D_COLON\<close>,
  which sets \<open>data_ptr\<close>, so the branch for a null \<open>data_ptr\<close> is never taken (pointer
  arithmetic on \<open>nullptr\<close> has no defined result in C++).  \<open>WAIT_END\<close> has no \<open>case\<close> label
  and falls to \<open>default\<close>.
\<close>

definition poll_byte :: "char \<Rightarrow> cmnd_parser \<Rightarrow> cmnd_parser" where
  "poll_byte ch s =
     (if work_buf_size s \<le> idx s then (reset s)\<lparr>state := ERROR\<rparr>
      else case state s of
        WAIT_START \<Rightarrow>
          if ch = CHR ''{'' then (reset s)\<lparr>state := WAIT_P\<rparr> else s
      | WAIT_P \<Rightarrow>
          s\<lparr>state := (if ch = CHR ''p'' then WAIT_P_COLON else ERROR)\<rparr>
      | WAIT_P_COLON \<Rightarrow>
          (let s1 = s\<lparr>state := (if ch = CHR '':'' then READ_PATH else ERROR)\<rparr> in
           if state s1 = READ_PATH then s1\<lparr>path_ptr := Some (idx s1)\<rparr> else s1)
      | READ_PATH \<Rightarrow>
          if ch = CHR '':'' then
            (let s1 = store_byte NUL s in
             s1\<lparr>path_len := u16 (int (idx s1) - 1), state := WAIT_D\<rparr>)
          else store_byte ch s
      | WAIT_D \<Rightarrow>
          s\<lparr>state := (if ch = CHR ''d'' then WAIT_D_COLON else ERROR)\<rparr>
      | WAIT_D_COLON \<Rightarrow>
          if ch = CHR '':'' then s\<lparr>data_ptr := Some (idx s), state := READ_DATA\<rparr>
          else s\<lparr>state := ERROR\<rparr>
      | READ_DATA \<Rightarrow>
          if ch = CHR ''}'' then
            (let s1 = store_byte NUL s;
                 off = (case data_ptr s1 of Some d \<Rightarrow> d | None \<Rightarrow> 0);
                 s2 = s1\<lparr>data_len := u16 (int (idx s1) - int off - 1)\<rparr>;
                 frame = \<lparr>cmnd_frame.path = path_ptr s2, path_len = path_len s2,
                          data = data_ptr s2, data_len = data_len s2\<rparr>
             in case push frame (frame_queue s2) of
                  (ok, fq) \<Rightarrow>
                    (let s3 = s2\<lparr>frame_queue := fq\<rparr> in
                     if \<not> ok then (reset s3)\<lparr>state := ERROR\<rparr> else reset s3))
          else store_byte ch s
      | ERROR \<Rightarrow>
          (let s1 = s\<lparr>idx := 0\<rparr> in
           if ch = CHR ''{'' then (reset s1)\<lparr>state := WAIT_P\<rparr> else s1)
      | WAIT_END \<Rightarrow> reset s)"

text \<open>\<open>cmnd_parser::poll\<close>: pop bytes until the RX queue reports empty.  The loop ends
  only when \<open>pop\<close> fails, so the function is partial; \<open>None\<close> stands for a loop that never
  ends.\<close>

partial_function (option) poll :: "cmnd_parser \<Rightarrow> cmnd_parser option" where
  "poll s =
     (case pop (rx_queue s) of
        (None, rx) \<Rightarrow> Some (s\<lparr>rx_queue := rx\<rparr>)
      | (Some ch, rx) \<Rightarrow> poll (poll_byte ch (s\<lparr>rx_queue := rx\<rparr>)))"

declare poll.simps [code]

section \<open>Frame encoder: \<open>cmnd_sender\<close>\<close>

text \<open>
  Every member function returns the success flag and the TX queue after the call.  A
  \<open>const char*\<close> argument is the list of its characters up to the terminating NUL.
  \<open>notify_tx_ready\<close>, called by \<open>push_char\<close> after a successful push, invokes the registered
  callback and touches neither the queue nor the result, so it does not appear.
  \<open>int32_t\<close> is \<open>32 word\<close>: negation wraps, \<open>/\<close> and \<open>%\<close> truncate towards zero (\<open>sdiv\<close>,
  \<open>smod\<close> on the signed value).
\<close>

definition push_char :: "char \<Rightarrow> char ring_buffer \<Rightarrow> bool \<times> char ring_buffer" where
  "push_char c tx_queue = push c tx_queue"

fun push_string :: "string \<Rightarrow> char ring_buffer \<Rightarrow> bool \<times> char ring_buffer" where
  "push_string [] tx_queue = (True, tx_queue)"
| "push_string (c # s) tx_queue =
     (case push_char c tx_queue of
        (ok, tx1) \<Rightarrow> if \<not> ok then (False, tx1) else push_string s tx1)"

definition INT32_MIN :: "32 word" where
  "INT32_MIN = - 2147483648"

text \<open>The first loop of \<open>push_int\<close>: least significant digit first into \<open>buf\<close> at index
  \<open>i\<close>.\<close>

function digits_loop :: "32 word \<Rightarrow> char list \<Rightarrow> nat \<Rightarrow> char list \<times> nat" where
  "digits_loop v buf i =
     (if 0 <s v
      then digits_loop (word_of_int (sint v sdiv 10))
             (buf[i := char_of (of_char CHR ''0'' + sint v smod 10)]) (i + 1)
      else (buf, i))"
  by pat_completeness auto
termination
proof (relation "measure (\<lambda>(v, buf, i). nat (sint v))", goal_cases)
  case 1
  show ?case by simp
next
  case (2 v buf i)
  then have pos: "0 < sint v" by (simp add: word_sless_alt)
  have up: "sint v < 2 ^ 31" using sint_lt [of v] by simp
  have q: "sint v sdiv 10 = sint v div 10"
    using pos by (simp add: signed_divide_int_def sgn_if)
  have r: "- (2 ^ 31) \<le> sint v div 10" "sint v div 10 < 2 ^ 31"
    using pos up by simp_all
  have "sint (word_of_int (sint v div 10) :: 32 word) = sint v div 10"
    using r by (simp add: sint_sbintrunc' signed_take_bit_int_eq_self)
  then have "nat (sint (word_of_int (sint v sdiv 10) :: 32 word)) < nat (sint v)"
    using pos by (simp add: q)
  then show ?case by simp
qed

text \<open>The second loop, \<open>while (i--)\<close>: the cells \<open>i - 1\<close> down to \<open>0\<close>.\<close>

fun emit_rev :: "char list \<Rightarrow> nat \<Rightarrow> char ring_buffer \<Rightarrow> bool \<times> char ring_buffer" where
  "emit_rev buf 0 tx_queue = (True, tx_queue)"
| "emit_rev buf (Suc i) tx_queue =
     (case push_char (buf ! i) tx_queue of
        (ok, tx1) \<Rightarrow> if \<not> ok then (False, tx1) else emit_rev buf i tx1)"

text \<open>\<open>push_int\<close>.  \<open>char buf[12]\<close> is not initialised in the source; every cell that is
  read has been written before, and the model starts from NUL cells.\<close>

definition push_int :: "32 word \<Rightarrow> char ring_buffer \<Rightarrow> bool \<times> char ring_buffer" where
  "push_int v tx_queue =
     (if v = INT32_MIN then push_string ''-2147483648'' tx_queue
      else if v = 0 then push_char CHR ''0'' tx_queue
      else
        (let negative = (v <s 0);
             v1 = (if negative then - v else v);
             (buf1, i1) = digits_loop v1 (replicate 12 NUL) 0;
             (buf2, i2) = (if negative then (buf1[i1 := CHR ''-''], i1 + 1) else (buf1, i1))
         in emit_rev buf2 i2 tx_queue))"

definition begin_frame :: "string \<Rightarrow> char ring_buffer \<Rightarrow> bool \<times> char ring_buffer" where
  "begin_frame path_arg tx_queue =
     (case push_char CHR ''{'' tx_queue of (ok, tx1) \<Rightarrow> if \<not> ok then (False, tx1) else
      case push_char CHR ''p'' tx1 of (ok, tx2) \<Rightarrow> if \<not> ok then (False, tx2) else
      case push_char CHR '':'' tx2 of (ok, tx3) \<Rightarrow> if \<not> ok then (False, tx3) else
      case push_string path_arg tx3 of (ok, tx4) \<Rightarrow> if \<not> ok then (False, tx4) else
      case push_char CHR '':'' tx4 of (ok, tx5) \<Rightarrow> if \<not> ok then (False, tx5) else
      case push_char CHR ''d'' tx5 of (ok, tx6) \<Rightarrow> if \<not> ok then (False, tx6) else
      case push_char CHR '':'' tx6 of (ok, tx7) \<Rightarrow> if \<not> ok then (False, tx7) else
      (True, tx7))"

definition end_frame :: "char ring_buffer \<Rightarrow> bool \<times> char ring_buffer" where
  "end_frame tx_queue =
     (case push_char CHR ''}'' tx_queue of (ok, tx1) \<Rightarrow> if \<not> ok then (False, tx1) else (True, tx1))"

text \<open>The \<open>for\<close> loop of \<open>send_int\<close>, from index \<open>i\<close>; \<open>values[i]\<close> is read for
  \<open>i < count\<close>, so \<open>count\<close> must not exceed the length of the array.\<close>

function send_int_loop ::
  "32 word list \<Rightarrow> nat \<Rightarrow> nat \<Rightarrow> char ring_buffer \<Rightarrow> bool \<times> char ring_buffer" where
  "send_int_loop values count i tx_queue =
     (if i < count then
        (case (if i \<noteq> 0 then push_char CHR '','' tx_queue else (True, tx_queue)) of
           (ok, tx1) \<Rightarrow> if \<not> ok then (False, tx1) else
         case push_int (values ! i) tx1 of
           (ok, tx2) \<Rightarrow> if \<not> ok then (False, tx2) else
         send_int_loop values count (i + 1) tx2)
      else (True, tx_queue))"
  by pat_completeness auto
termination
  by (relation "measure (\<lambda>(values, count, i, tx_queue). count - i)") auto

definition send_int ::
  "string \<Rightarrow> 32 word list \<Rightarrow> nat \<Rightarrow> char ring_buffer \<Rightarrow> bool \<times> char ring_buffer" where
  "send_int path_arg values count tx_queue =
     (case begin_frame path_arg tx_queue of (ok, tx1) \<Rightarrow> if \<not> ok then (False, tx1) else
      case send_int_loop values count 0 tx1 of (ok, tx2) \<Rightarrow> if \<not> ok then (False, tx2) else
      end_frame tx2)"

text \<open>
  Binary32 arithmetic.  A finite \<open>float\<close> is the rational number it denotes, and every
  operation on \<open>float\<close> operands is the exact operation followed by \<open>f32\<close>, the rounding to
  the nearest binary32 value with ties to the even significand (24 significant bits,
  exponents from \<open>-126\<close>, subnormal numbers below).  Results beyond the largest finite
  value, infinities and NaN are not represented.  \<open>f32_exponent x\<close> is the exponent of
  the binade of \<open>x > 0\<close>, not below \<open>-126\<close>.
\<close>

fun f32_exp_up :: "nat \<Rightarrow> rat \<Rightarrow> int" where
  "f32_exp_up 0 x = 0"
| "f32_exp_up (Suc n) x = (if 2 \<le> x then 1 + f32_exp_up n (x / 2) else 0)"

fun f32_exp_down :: "nat \<Rightarrow> rat \<Rightarrow> int" where
  "f32_exp_down 0 x = 0"
| "f32_exp_down (Suc n) x = (if x < 1 then f32_exp_down n (x * 2) - 1 else 0)"

definition f32_exponent :: "rat \<Rightarrow> int" where
  "f32_exponent x = (if 1 \<le> x then f32_exp_up 127 x else f32_exp_down 126 x)"

definition round_half_even :: "rat \<Rightarrow> int" where
  "round_half_even q =
     (let f = \<lfloor>q\<rfloor>; r = q - of_int f in
      if r < 1 / 2 then f else if 1 / 2 < r then f + 1 else if even f then f else f + 1)"

definition f32 :: "rat \<Rightarrow> rat" where
  "f32 x =
     (if x = 0 then 0
      else (let u = power_int 2 (f32_exponent \<bar>x\<bar> - 23)
            in of_int (round_half_even (x / u)) * u))"

text \<open>A cast to \<open>int32_t\<close> truncates towards zero (a value outside the range of \<open>int32_t\<close>
  has no defined result in C++; here it wraps).\<close>

definition trunc_rat :: "rat \<Rightarrow> int" where
  "trunc_rat x = (if 0 \<le> x then \<lfloor>x\<rfloor> else \<lceil>x\<rceil>)"

text \<open>
  \<open>push_float\<close>.  The argument is the real number whose nearest binary32 value is passed
  (so \<open>3999/2000\<close> stands for the literal \<open>1.9995f\<close>); \<open>(float)int_part\<close>, the subtraction,
  the product with \<open>1000.0f\<close> and the sum with \<open>0.5f\<close> are each rounded to binary32.  The
  source assigns \<open>int_part++\<close> after \<open>int_part\<close> has been sent; the incremented value is
  not used again.
\<close>

definition push_float :: "rat \<Rightarrow> char ring_buffer \<Rightarrow> bool \<times> char ring_buffer" where
  "push_float v_arg tx_queue =
     (let v = f32 v_arg in
      case (if v < 0 then push_char CHR ''-'' tx_queue else (True, tx_queue)) of
        (ok, tx1) \<Rightarrow> if \<not> ok then (False, tx1) else
     (let v1 = (if v < 0 then - v else v);
          int_part = (word_of_int (trunc_rat v1) :: 32 word);
          frac = f32 (v1 - f32 (of_int (sint int_part)))
      in case push_int int_part tx1 of (ok, tx2) \<Rightarrow> if \<not> ok then (False, tx2) else
         case push_char CHR ''.'' tx2 of (ok, tx3) \<Rightarrow> if \<not> ok then (False, tx3) else
         (let frac_part0 = (word_of_int (trunc_rat (f32 (f32 (frac * 1000) + 1 / 2))) :: 32 word);
              (frac_part, int_part1) =
                 (if \<not> (frac_part0 <s 1000) then (0, int_part + 1) else (frac_part0, int_part))
          in case (if frac_part <s 100 then push_char CHR ''0'' tx3 else (True, tx3)) of
               (ok, tx4) \<Rightarrow> if \<not> ok then (False, tx4) else
             case (if frac_part <s 10 then push_char CHR ''0'' tx4 else (True, tx4)) of
               (ok, tx5) \<Rightarrow> if \<not> ok then (False, tx5) else
             push_int frac_part tx5)))"

section \<open>Command dispatcher: \<open>cmnd_executer\<close>\<close>

text \<open>
  The enumerators of \<open>data_type\<close> carry the prefix \<open>DT_\<close>.  A handler is a value of an
  arbitrary type \<open>'h\<close>; a call of a handler is recorded as the tuple of the handler, the type
  tag, the parsed values and the count it receives.  \<open>atoi\<close> and \<open>strtof\<close> are library
  functions and are parameters; they receive the string from the start of the field to the
  terminating NUL.  The local arrays \<open>values[MAX_CSV_ITEMS]\<close> are the lists of the cells
  written so far (\<open>out[count++] = x\<close> appends), so \<open>count\<close> is the length of the list.
\<close>

definition MAX_CSV_ITEMS :: nat where
  "MAX_CSV_ITEMS = 8"

datatype data_type = DT_NONE | DT_INT | DT_FLOAT | DT_STRING

record 'h path_entry =
  path :: string
  expected_type :: data_type
  handler :: 'h

datatype ('i, 'f) csv_values =
  NoValues | IntValues "'i list" | FloatValues "'f list" | StringValues "string list"

type_synonym ('h, 'i, 'f) handler_call = "'h \<times> data_type \<times> ('i, 'f) csv_values \<times> nat"

text \<open>The C string at offset \<open>p\<close> of the work buffer; \<open>strcmp\<close> and the scans below read
  it up to the first NUL.  The parser never queues a frame with a null path, and the
  dispatcher tests the data pointer before it reads through it; reading through
  \<open>nullptr\<close> has no defined result in C++ and gives the empty string here.\<close>

definition cstr :: "char list \<Rightarrow> nat \<Rightarrow> string" where
  "cstr mem p = takeWhile (\<lambda>c. c \<noteq> NUL) (drop p mem)"

definition cstr_at :: "char list \<Rightarrow> nat option \<Rightarrow> string" where
  "cstr_at mem ptr = (case ptr of None \<Rightarrow> [] | Some p \<Rightarrow> cstr mem p)"

fun detect_type_loop :: "string \<Rightarrow> bool \<Rightarrow> data_type" where
  "detect_type_loop [] has_dot = (if has_dot then DT_FLOAT else DT_INT)"
| "detect_type_loop (c # p) has_dot =
     (if c = CHR ''.'' then detect_type_loop p True
      else if ((of_char c :: nat) < of_char CHR ''0'' \<or> (of_char CHR ''9'' :: nat) < of_char c)
              \<and> c \<noteq> CHR ''-'' \<and> c \<noteq> CHR '',''
      then DT_STRING
      else detect_type_loop p has_dot)"

definition detect_type :: "string \<Rightarrow> data_type" where
  "detect_type data_arg = detect_type_loop data_arg False"

fun count_csv_loop :: "string \<Rightarrow> nat \<Rightarrow> nat" where
  "count_csv_loop [] count = count"
| "count_csv_loop (c # p) count =
     count_csv_loop p (if c = CHR '','' then u16 (int count + 1) else count)"

definition count_csv :: "string \<Rightarrow> nat" where
  "count_csv data_arg = count_csv_loop data_arg 1"

text \<open>The inner \<open>while\<close> and \<open>if\<close> of \<open>parse_int_csv\<close> and \<open>parse_float_csv\<close>: skip to
  the next comma and over it.\<close>

definition skip_field :: "string \<Rightarrow> string" where
  "skip_field data_arg =
     (let d1 = dropWhile (\<lambda>c. c \<noteq> CHR '','') data_arg in
      case d1 of [] \<Rightarrow> [] | c # r \<Rightarrow> if c = CHR '','' then r else d1)"

function parse_num_csv_loop :: "(string \<Rightarrow> 'v) \<Rightarrow> string \<Rightarrow> 'v list \<Rightarrow> 'v list" where
  "parse_num_csv_loop conv data_arg out =
     (if data_arg \<noteq> [] \<and> length out < MAX_CSV_ITEMS
      then parse_num_csv_loop conv (skip_field data_arg) (out @ [conv data_arg])
      else out)"
  by pat_completeness auto
termination
proof (relation "measure (\<lambda>(conv, data_arg, out). length data_arg)", goal_cases)
  case 1
  show ?case by simp
next
  case (2 conv data_arg out)
  then obtain c r where d: "data_arg = c # r" by (cases data_arg) auto
  have "length (dropWhile (\<lambda>c. c \<noteq> CHR '','') r) \<le> length r"
    by (rule length_dropWhile_le)
  then have "length (skip_field data_arg) < length data_arg"
    by (auto simp: skip_field_def d Let_def split: list.split)
  then show ?case by simp
qed

definition parse_int_csv :: "(string \<Rightarrow> 'i) \<Rightarrow> string \<Rightarrow> 'i list \<times> nat" where
  "parse_int_csv atoi data_arg =
     (let out = parse_num_csv_loop atoi data_arg [] in (out, length out))"

definition parse_float_csv :: "(string \<Rightarrow> 'f) \<Rightarrow> string \<Rightarrow> 'f list \<times> nat" where
  "parse_float_csv strtof data_arg =
     (let out = parse_num_csv_loop strtof data_arg [] in (out, length out))"

text \<open>\<open>parse_string_csv\<close> works in place on the work buffer: \<open>data\<close> is an offset, \<open>out\<close>
  the list of the offsets stored so far.  A read past the end of the buffer (undefined
  in C++) ends the loop.\<close>

function parse_string_csv_loop :: "char list \<Rightarrow> nat \<Rightarrow> nat list \<Rightarrow> char list \<times> nat list" where
  "parse_string_csv_loop mem data_arg out =
     (if data_arg < length mem \<and> mem ! data_arg \<noteq> NUL \<and> length out < MAX_CSV_ITEMS
      then if mem ! data_arg = CHR '',''
           then parse_string_csv_loop (mem[data_arg := NUL]) (data_arg + 1) (out @ [data_arg + 1])
           else parse_string_csv_loop mem (data_arg + 1) out
      else (mem, out))"
  by pat_completeness auto
termination
  by (relation "measure (\<lambda>(mem, data_arg, out). length mem - data_arg)") auto

definition parse_string_csv :: "char list \<Rightarrow> nat \<Rightarrow> char list \<times> nat list \<times> nat" where
  "parse_string_csv mem data_arg =
     (case parse_string_csv_loop mem data_arg [data_arg] of
        (mem1, out) \<Rightarrow> (mem1, out, length out))"

text \<open>The body of the \<open>for\<close> loop over the path table for one popped frame.  The result
  is the work buffer after the call and the handler call made, if any.\<close>

fun dispatch ::
  "(string \<Rightarrow> 'i) \<Rightarrow> (string \<Rightarrow> 'f) \<Rightarrow> 'h path_entry list \<Rightarrow> cmnd_frame \<Rightarrow> char list
     \<Rightarrow> char list \<times> ('h, 'i, 'f) handler_call option" where
  "dispatch atoi strtof [] frame mem = (mem, None)"
| "dispatch atoi strtof (e # table) frame mem =
     (if cstr_at mem (cmnd_frame.path frame) \<noteq> path e
      then dispatch atoi strtof table frame mem
      else if cmnd_frame.data frame = None \<or> cmnd_frame.data_len frame = 0
      then (mem, Some (handler e, DT_NONE, NoValues, 0))
      else
        (let type = detect_type (cstr_at mem (cmnd_frame.data frame)) in
         if type \<noteq> expected_type e then (mem, None)
         else case type of
           DT_INT \<Rightarrow>
             (case parse_int_csv atoi (cstr_at mem (cmnd_frame.data frame)) of
                (vals, count) \<Rightarrow> (mem, Some (handler e, DT_INT, IntValues vals, count)))
         | DT_FLOAT \<Rightarrow>
             (case parse_float_csv strtof (cstr_at mem (cmnd_frame.data frame)) of
                (vals, count) \<Rightarrow> (mem, Some (handler e, DT_FLOAT, FloatValues vals, count)))
         | DT_STRING \<Rightarrow>
             (case parse_string_csv mem (case cmnd_frame.data frame of Some d \<Rightarrow> d | None \<Rightarrow> 0) of
                (mem1, ptrs, count) \<Rightarrow>
                  (mem1, Some (handler e, DT_STRING, StringValues (map (cstr mem1) ptrs), count)))
         | DT_NONE \<Rightarrow> (mem, None)))"

definition executer_poll ::
  "(string \<Rightarrow> 'i) \<Rightarrow> (string \<Rightarrow> 'f) \<Rightarrow> 'h path_entry list \<Rightarrow> nat \<Rightarrow> char list
     \<Rightarrow> cmnd_frame ring_buffer
     \<Rightarrow> cmnd_frame ring_buffer \<times> char list \<times> ('h, 'i, 'f) handler_call option" where
  "executer_poll atoi strtof path_table path_count mem frame_buffer =
     (case pop frame_buffer of
        (None, fq) \<Rightarrow> (fq, mem, None)
      | (Some frame, fq) \<Rightarrow>
          (case dispatch atoi strtof (take path_count path_table) frame mem of
             (mem1, call) \<Rightarrow> (fq, mem1, call)))"

declare parse_num_csv_loop.simps [simp del]

declare parse_string_csv_loop.simps [simp del]

section \<open>Vocabulary of the specification\<close>

text \<open>The slice of the work buffer that a (pointer, length) pair of a frame denotes.\<close>

definition slice :: "'a list \<Rightarrow> nat \<Rightarrow> nat \<Rightarrow> 'a list" where
  "slice buf off len = take len (drop off buf)"

definition view :: "char list \<Rightarrow> nat option \<Rightarrow> nat \<Rightarrow> string option" where
  "view mem ptr len = (case ptr of None \<Rightarrow> None | Some off \<Rightarrow> Some (slice mem off len))"

definition frame_bytes :: "string \<Rightarrow> string \<Rightarrow> string" where
  "frame_bytes P D = ''{p:'' @ P @ '':d:'' @ D @ ''}''"

definition write_at :: "'a list \<Rightarrow> nat \<Rightarrow> 'a list \<Rightarrow> 'a list" where
  "write_at buf i xs = take i buf @ xs @ drop (i + length xs) buf"

text \<open>The frame pointers that a state reads are set.\<close>

definition ptrs_set :: "cmnd_parser \<Rightarrow> bool" where
  "ptrs_set s \<longleftrightarrow>
     (state s = READ_DATA \<longrightarrow> data_ptr s \<noteq> None \<and> path_ptr s \<noteq> None)
     \<and> (state s \<in> {READ_PATH, WAIT_D, WAIT_D_COLON} \<longrightarrow> path_ptr s \<noteq> None)"

text \<open>One frame has been taken from the RX queue and queued: the RX queue is empty, the
  parser is back in \<open>WAIT_START\<close>, and the frame queue holds one more frame whose slices
  are \<open>P\<close> and \<open>D\<close>.\<close>

definition one_frame_parsed :: "cmnd_parser \<Rightarrow> cmnd_parser \<Rightarrow> string \<Rightarrow> string \<Rightarrow> bool" where
  "one_frame_parsed s s' P D \<longleftrightarrow>
     rb_contents (rx_queue s') = [] \<and> state s' = WAIT_START \<and> idx s' = 0 \<and>
     (\<exists>f. rb_contents (frame_queue s') = rb_contents (frame_queue s) @ [f]
        \<and> cmnd_frame.path_len f = length P
        \<and> view (workBuffer s') (cmnd_frame.path f) (cmnd_frame.path_len f) = Some P
        \<and> cmnd_frame.data_len f = length D
        \<and> view (workBuffer s') (cmnd_frame.data f) (cmnd_frame.data_len f) = Some D)"

definition empty_frame :: cmnd_frame where
  "empty_frame = \<lparr>cmnd_frame.path = None, path_len = 0, data = None, data_len = 0\<rparr>"

text \<open>An output function emits the string \<open>s\<close>: it keeps the queue well formed, a true
  result means that exactly \<open>s\<close> has been appended, and the result is true whenever \<open>s\<close>
  fits.\<close>

definition emits :: "(char ring_buffer \<Rightarrow> bool \<times> char ring_buffer) \<Rightarrow> string \<Rightarrow> bool" where
  "emits f s \<longleftrightarrow>
     (\<forall>tx. rb_wf tx \<longrightarrow>
        rb_wf (snd (f tx)) \<and> buffer_size (snd (f tx)) = buffer_size tx
        \<and> (fst (f tx) \<longrightarrow> rb_contents (snd (f tx)) = rb_contents tx @ s)
        \<and> (rb_count tx + length s < buffer_size tx \<longrightarrow> fst (f tx)))"

text \<open>Decimal notation: the digits of a natural number, most significant first, and the
  decimal rendering of an integer.\<close>

definition digit_char :: "nat \<Rightarrow> char" where
  "digit_char d = char_of (of_char CHR ''0'' + d)"

fun dec_digits :: "nat \<Rightarrow> string" where
  "dec_digits n = (if n < 10 then [digit_char n] else dec_digits (n div 10) @ [digit_char (n mod 10)])"

declare dec_digits.simps [simp del]

definition decimal :: "int \<Rightarrow> string" where
  "decimal k = (if k < 0 then CHR ''-'' # dec_digits (nat (- k)) else dec_digits (nat k))"

definition csv :: "string list \<Rightarrow> string" where
  "csv xs = (case xs of [] \<Rightarrow> [] | x # r \<Rightarrow> x @ concat (map (\<lambda>y. CHR '','' # y) r))"

definition is_digit :: "char \<Rightarrow> bool" where
  "is_digit c \<longleftrightarrow> c \<in> set ''0123456789''"

definition digit_val :: "char \<Rightarrow> nat" where
  "digit_val c = of_char c - of_char CHR ''0''"

definition dec_value :: "string \<Rightarrow> nat" where
  "dec_value ds = foldl (\<lambda>a c. 10 * a + digit_val c) 0 ds"

definition canonical_decimal :: "int \<Rightarrow> string \<Rightarrow> bool" where
  "canonical_decimal k s \<longleftrightarrow>
     (let ds = (if k < 0 then tl s else s) in
      (k < 0 \<longrightarrow> s \<noteq> [] \<and> hd s = CHR ''-'')
      \<and> ds \<noteq> [] \<and> list_all is_digit ds
      \<and> (hd ds = CHR ''0'' \<longrightarrow> ds = ''0'')
      \<and> int (dec_value ds) = \<bar>k\<bar>)"

text \<open>The digits in the order in which the first loop of \<open>push_int\<close> produces them.\<close>

fun rev_digits :: "nat \<Rightarrow> string" where
  "rev_digits n = (if n = 0 then [] else digit_char (n mod 10) # rev_digits (n div 10))"

declare rev_digits.simps [simp del]

declare digits_loop.simps [simp del]

declare send_int_loop.simps [simp del]

text \<open>Reading a rendering back: the fields between the commas, and the integer that a
  decimal string denotes.\<close>

definition read_decimal :: "string \<Rightarrow> int" where
  "read_decimal s =
     (case s of [] \<Rightarrow> 0
      | c # ds \<Rightarrow> if c = CHR ''-'' then - int (dec_value ds) else int (dec_value s))"

fun split_csv :: "string \<Rightarrow> string list" where
  "split_csv [] = [[]]"
| "split_csv (c # s) =
     (if c = CHR '','' then [] # split_csv s
      else case split_csv s of [] \<Rightarrow> [[c]] | x # r \<Rightarrow> (c # x) # r)"

text \<open>Library functions for the examples: \<open>atoi\<close> as the C standard describes it where
  the value fits \<open>int\<close> (white space, an optional sign, the decimal digits up to the first
  other character), and a stand-in for \<open>strtof\<close> where no payload is classified Float.\<close>

definition is_space :: "char \<Rightarrow> bool" where
  "is_space c \<longleftrightarrow> c \<in> set [CHR 0x20, CHR 0x09, CHR 0x0A, CHR 0x0B, CHR 0x0C, CHR 0x0D]"

definition atoi_c :: "string \<Rightarrow> int" where
  "atoi_c s =
     (let t = dropWhile is_space s in
      case t of [] \<Rightarrow> 0
      | c # r \<Rightarrow>
          if c = CHR ''-'' then - int (dec_value (takeWhile is_digit r))
          else if c = CHR ''+'' then int (dec_value (takeWhile is_digit r))
          else int (dec_value (takeWhile is_digit t)))"

definition strtof_unused :: "string \<Rightarrow> rat" where
  "strtof_unused s = 0"

text \<open>The classification of a payload in the words of the specification.\<close>

definition classify :: "string \<Rightarrow> data_type" where
  "classify payload =
     (if \<exists>c \<in> set payload. \<not> (is_digit c \<or> c = CHR ''-'' \<or> c = CHR '','' \<or> c = CHR ''.'')
      then DT_STRING
      else if CHR ''.'' \<in> set payload then DT_FLOAT else DT_INT)"

section \<open>Properties of the bounded queue\<close>

subsection \<open>Index arithmetic\<close>

lemma rb_count_less: "rb_wf q \<Longrightarrow> rb_count q < buffer_size q"
  by (simp add: rb_wf_def rb_count_def)

lemma rb_count_cases:
  assumes "p < (C::nat)" "c < C"
  shows "(p + C - c) mod C = (if c \<le> p then p - c else p + C - c)"
proof (cases "c \<le> p")
  case True
  then have "p + C - c = (p - c) + C" by simp
  then have "(p + C - c) mod C = (p - c) mod C" by (metis mod_add_self2)
  with True assms show ?thesis by simp
next
  case False
  with assms show ?thesis by simp
qed

lemma rb_slot_cases:
  assumes "c < (C::nat)" "k < C"
  shows "(c + k) mod C = (if c + k < C then c + k else c + k - C)"
proof (cases "c + k < C")
  case True
  then show ?thesis by simp
next
  case False
  then have "c + k = (c + k - C) + C" by simp
  then have "(c + k) mod C = (c + k - C) mod C" by (metis mod_add_self2)
  with False assms show ?thesis by simp
qed

lemma rb_slot_prd:
  assumes "p < (C::nat)" "c < C"
  shows "(c + (p + C - c) mod C) mod C = p"
  using assms by (simp add: rb_count_cases rb_slot_cases)

lemma rb_slot_inj:
  assumes "p < (C::nat)" "c < C" "k < (p + C - c) mod C"
  shows "(c + k) mod C \<noteq> p"
proof -
  from assms have "k < C" by (metis less_trans mod_less_divisor less_nat_zero_code neq0_conv)
  with assms show ?thesis
    by (auto simp: rb_count_cases rb_slot_cases split: if_splits)
qed

lemma rb_count_push:
  assumes "p < (C::nat)" "c < C" "(p + 1) mod C \<noteq> c" "1 < C"
  shows "((p + 1) mod C + C - c) mod C = Suc ((p + C - c) mod C)"
proof -
  have s: "(p + 1) mod C = (if p + 1 < C then p + 1 else 0)"
    using assms by (auto simp: mod_if)
  have "(p + 1) mod C < C" using assms by simp
  from rb_count_cases [OF this assms(2)] rb_count_cases [OF assms(1,2)] assms s
  show ?thesis by (auto split: if_splits)
qed

lemma rb_count_pop:
  assumes "p < (C::nat)" "c < C" "c \<noteq> p" "1 < C"
  shows "(p + C - c) mod C = Suc ((p + C - (c + 1) mod C) mod C)"
proof -
  have s: "(c + 1) mod C = (if c + 1 < C then c + 1 else 0)"
    using assms by (auto simp: mod_if)
  have "(c + 1) mod C < C" using assms by simp
  from rb_count_cases [OF assms(1) this] rb_count_cases [OF assms(1,2)] assms s
  show ?thesis by (auto split: if_splits)
qed

lemma push_full: "fst (push x q) = (\<not> rb_full q)"
  by (simp add: push_def rb_full_def Let_def)

lemma push_fail_same: "\<not> fst (push x q) \<Longrightarrow> snd (push x q) = q"
  by (simp add: push_def Let_def split: if_splits)

lemma push_wf: "rb_wf q \<Longrightarrow> rb_wf (snd (push x q))"
  by (simp add: push_def rb_wf_def Let_def)

lemma push_contents:
  assumes "rb_wf q" "fst (push x q)"
  shows "rb_contents (snd (push x q)) = rb_contents q @ [x]"
proof -
  let ?C = "buffer_size q"
  from assms have ne: "(prd q + 1) mod ?C \<noteq> cns q"
    by (simp add: push_def Let_def split: if_splits)
  from assms(1) have b: "prd q < ?C" "cns q < ?C" "1 < ?C" "?C \<le> length (buffer q)"
    by (simp_all add: rb_wf_def)
  have q': "snd (push x q) = q\<lparr>buffer := (buffer q)[prd q := x], prd := (prd q + 1) mod ?C\<rparr>"
    using ne b by (simp add: push_def Let_def)
  have cnt: "rb_count (snd (push x q)) = Suc (rb_count q)"
    unfolding q' rb_count_def using rb_count_push [OF b(1,2) ne b(3)] by simp
  have old: "(buffer q)[prd q := x] ! ((cns q + k) mod ?C) = buffer q ! ((cns q + k) mod ?C)"
    if "k < rb_count q" for k
    using rb_slot_inj [OF b(1,2), of k] that by (simp add: rb_count_def)
  have new: "(buffer q)[prd q := x] ! ((cns q + rb_count q) mod ?C) = x"
    using rb_slot_prd [OF b(1,2)] b by (simp add: rb_count_def)
  show ?thesis
    unfolding rb_contents_def cnt
    using old new by (simp add: q' rb_count_def)
qed

lemma pop_empty: "(fst (pop q) = None) = rb_empty q"
  by (auto simp: pop_def rb_empty_def)

lemma pop_fail_same: "fst (pop q) = None \<Longrightarrow> snd (pop q) = q"
  by (simp add: pop_def split: if_splits)

lemma pop_wf: "rb_wf q \<Longrightarrow> rb_wf (snd (pop q))"
  by (simp add: pop_def rb_wf_def)

lemma pop_contents:
  assumes "rb_wf q" "fst (pop q) = Some y"
  shows "rb_contents q = y # rb_contents (snd (pop q))"
proof -
  let ?C = "buffer_size q"
  from assms have ne: "cns q \<noteq> prd q" and y: "y = buffer q ! cns q"
    by (auto simp: pop_def rb_wf_def split: if_splits)
  from assms(1) have b: "prd q < ?C" "cns q < ?C" "1 < ?C"
    by (simp_all add: rb_wf_def)
  have q': "snd (pop q) = q\<lparr>cns := (cns q + 1) mod ?C\<rparr>"
    using ne by (simp add: pop_def)
  have cnt: "rb_count q = Suc (rb_count (snd (pop q)))"
    unfolding q' rb_count_def using rb_count_pop [OF b(1,2) ne b(3)] by simp
  have shift: "(Suc (cns q) mod ?C + k) mod ?C = Suc (cns q + k) mod ?C" for k
    by (metis add_Suc mod_add_left_eq)
  show ?thesis
    unfolding rb_contents_def cnt upt_conv_Cons [OF zero_less_Suc] 
    using b by (simp add: y q' shift map_Suc_upt [symmetric] rb_count_def del: upt_Suc)
qed

lemma rb_contents_empty: "rb_wf q \<Longrightarrow> (rb_contents q = []) = rb_empty q"
  by (auto simp: rb_contents_def rb_count_def rb_wf_def rb_empty_def rb_count_cases split: if_splits)

lemma length_rb_contents [simp]: "length (rb_contents q) = rb_count q"
  by (simp add: rb_contents_def)

lemma rb_full_count: "rb_wf q \<Longrightarrow> rb_full q = (rb_count q = buffer_size q - 1)"
  by (auto simp: rb_full_def rb_count_def rb_wf_def rb_count_cases mod_if split: if_splits)


subsection \<open>Sequences of operations\<close>

lemma push_index_ok: "1 < buffer_size q \<Longrightarrow> rb_index_ok q \<Longrightarrow> rb_index_ok (snd (push x q))"
  by (simp add: push_def rb_index_ok_def Let_def)

lemma pop_index_ok: "1 < buffer_size q \<Longrightarrow> rb_index_ok q \<Longrightarrow> rb_index_ok (snd (pop q))"
  by (simp add: pop_def rb_index_ok_def)

lemma push_buffer_size [simp]: "buffer_size (snd (push x q)) = buffer_size q"
  by (simp add: push_def Let_def)

lemma pop_buffer_size [simp]: "buffer_size (snd (pop q)) = buffer_size q"
  by (simp add: pop_def)

lemma run_ops_index_ok:
  "1 < buffer_size q \<Longrightarrow> rb_index_ok q \<Longrightarrow>
     rb_index_ok (snd (snd (run_ops ops q))) \<and> buffer_size (snd (snd (run_ops ops q))) = buffer_size q"
proof (induction ops arbitrary: q)
  case Nil
  then show ?case by simp
next
  case (Cons op ops)
  show ?case
  proof (cases op)
    case (Push x)
    have "1 < buffer_size (snd (push x q))" "rb_index_ok (snd (push x q))"
      using Cons.prems by (simp_all add: push_index_ok)
    from Cons.IH [OF this] show ?thesis
      using Push by (simp add: split_beta)
  next
    case Pop
    have "1 < buffer_size (snd (pop q))" "rb_index_ok (snd (pop q))"
      using Cons.prems by (simp_all add: pop_index_ok)
    from Cons.IH [OF this] show ?thesis
      using Pop by (simp add: split_beta)
  qed
qed

lemma run_ops_fifo:
  "rb_wf q \<Longrightarrow> run_ops ops q = (ins, outs, q') \<Longrightarrow>
     rb_wf q' \<and> rb_contents q @ ins = outs @ rb_contents q'"
proof (induction ops arbitrary: q ins outs)
  case Nil
  then show ?case by simp
next
  case (Cons op ops)
  show ?case
  proof (cases op)
    case (Push x)
    obtain ins1 outs1 where r: "run_ops ops (snd (push x q)) = (ins1, outs1, q')"
      using Cons.prems(2) Push by (auto simp: split_beta) (metis prod.collapse)
    have wf1: "rb_wf (snd (push x q))" using Cons.prems(1) by (rule push_wf)
    from Cons.IH [OF wf1 r]
    have ih: "rb_wf q'" "rb_contents (snd (push x q)) @ ins1 = outs1 @ rb_contents q'" by simp_all
    have io: "ins = (if fst (push x q) then [x] else []) @ ins1" "outs = outs1"
      using Cons.prems(2) Push r by (simp_all add: split_beta)
    show ?thesis
    proof (cases "fst (push x q)")
      case True
      with ih io push_contents [OF Cons.prems(1) True] show ?thesis by simp
    next
      case False
      with ih io push_fail_same [OF False] show ?thesis by simp
    qed
  next
    case Pop
    obtain ins1 outs1 where r: "run_ops ops (snd (pop q)) = (ins1, outs1, q')"
      using Cons.prems(2) Pop by (auto simp: split_beta) (metis prod.collapse)
    have wf1: "rb_wf (snd (pop q))" using Cons.prems(1) by (rule pop_wf)
    from Cons.IH [OF wf1 r]
    have ih: "rb_wf q'" "rb_contents (snd (pop q)) @ ins1 = outs1 @ rb_contents q'" by simp_all
    have io: "ins = ins1" "outs = (case fst (pop q) of None \<Rightarrow> [] | Some y \<Rightarrow> [y]) @ outs1"
      using Cons.prems(2) Pop r by (simp_all add: split_beta)
    show ?thesis
    proof (cases "fst (pop q)")
      case None
      with ih io pop_fail_same [OF None] show ?thesis by simp
    next
      case (Some y)
      with ih io pop_contents [OF Cons.prems(1) Some] show ?thesis by simp
    qed
  qed
qed

lemma rb_init_wf: "1 < C \<Longrightarrow> C \<le> length buf \<Longrightarrow> rb_wf (ring_buffer_init buf C)"
  by (simp add: rb_wf_def ring_buffer_init_def)

lemma rb_init_contents [simp]: "rb_contents (ring_buffer_init buf C) = []"
  by (simp add: rb_contents_def rb_count_def ring_buffer_init_def)

lemma run_pushes:
  "rb_wf q \<Longrightarrow> rb_count q + length xs < buffer_size q \<Longrightarrow>
     \<exists>q'. run_ops (map Push xs) q = (xs, [], q') \<and> rb_wf q'
        \<and> rb_count q' = rb_count q + length xs \<and> buffer_size q' = buffer_size q"
proof (induction xs arbitrary: q)
  case Nil
  then show ?case by simp
next
  case (Cons x xs)
  have nf: "\<not> rb_full q" using Cons.prems by (simp add: rb_full_count)
  then have ok: "fst (push x q)" by (simp add: push_full)
  have wf1: "rb_wf (snd (push x q))" using Cons.prems(1) by (rule push_wf)
  have c1: "rb_count (snd (push x q)) = Suc (rb_count q)"
    using push_contents [OF Cons.prems(1) ok] by (metis length_append_singleton length_rb_contents)
  have "rb_count (snd (push x q)) + length xs < buffer_size (snd (push x q))"
    using Cons.prems(2) c1 by simp
  from Cons.IH [OF wf1 this] obtain q' where
    "run_ops (map Push xs) (snd (push x q)) = (xs, [], q')" "rb_wf q'"
    "rb_count q' = rb_count (snd (push x q)) + length xs" "buffer_size q' = buffer_size q"
    by auto
  then show ?case using ok c1 by (simp add: split_beta)
qed


text \<open>
  Claim C4.  For a queue of capacity \<open>C > 1\<close>: \<open>push\<close> returns false and leaves the queue
  (indices and storage) as it was exactly when \<open>(prd + 1) mod C = cns\<close>; \<open>pop\<close> returns
  false and leaves the queue as it was exactly when \<open>prd = cns\<close>; after \<open>C - 1\<close> accepted
  pushes on a fresh queue the next push is refused, and after one pop the next push is
  accepted again.
\<close>

theorem ring_buffer_full_empty:
  "((\<not> fst (push x q) \<and> snd (push x q) = q) = ((prd q + 1) mod buffer_size q = cns q))
   \<and> ((fst (pop q) = None \<and> snd (pop q) = q) = (prd q = cns q))
   \<and> (1 < C \<and> C \<le> length buf \<and> length xs = C - 1 \<longrightarrow>
      (\<exists>q1. run_ops (map Push xs) (ring_buffer_init buf C) = (xs, [], q1)
         \<and> \<not> fst (push y q1)
         \<and> fst (pop q1) \<noteq> None
         \<and> fst (push y (snd (pop q1)))))"
proof (intro conjI impI)
  show "(\<not> fst (push x q) \<and> snd (push x q) = q) = ((prd q + 1) mod buffer_size q = cns q)"
    by (auto simp: push_def Let_def)
  show "(fst (pop q) = None \<and> snd (pop q) = q) = (prd q = cns q)"
    by (auto simp: pop_def)
  assume a: "1 < C \<and> C \<le> length buf \<and> length xs = C - 1"
  then have C: "1 < C" "C \<le> length buf" and len: "length xs = C - 1" by simp_all
  let ?q0 = "ring_buffer_init buf C"
  have wf0: "rb_wf ?q0" using C by (rule rb_init_wf)
  have "rb_count ?q0 + length xs < buffer_size ?q0"
    using C len by (simp add: rb_count_def ring_buffer_init_def)
  from run_pushes [OF wf0 this] obtain q1 where q1:
    "run_ops (map Push xs) ?q0 = (xs, [], q1)" "rb_wf q1"
    "rb_count q1 = rb_count ?q0 + length xs" "buffer_size q1 = buffer_size ?q0"
    by auto
  then have cnt: "rb_count q1 = C - 1" "buffer_size q1 = C"
    using len by (simp_all add: rb_count_def ring_buffer_init_def)
  have full: "\<not> fst (push y q1)"
    using q1(2) cnt by (simp add: push_full rb_full_count)
  have "rb_count q1 \<noteq> 0" using cnt C by simp
  then have "rb_contents q1 \<noteq> []" by (metis length_rb_contents list.size(3))
  then have ne: "fst (pop q1) \<noteq> None"
    using rb_contents_empty [OF q1(2)] by (simp add: pop_empty)
  then obtain z where z: "fst (pop q1) = Some z" by auto
  have "rb_count q1 = Suc (rb_count (snd (pop q1)))"
    using pop_contents [OF q1(2) z] by (metis length_Cons length_rb_contents)
  then have "\<not> rb_full (snd (pop q1))"
    using cnt C pop_wf [OF q1(2)] by (simp add: rb_full_count)
  then have "fst (push y (snd (pop q1)))" by (simp add: push_full)
  with q1(1) full ne
  show "\<exists>q1. run_ops (map Push xs) ?q0 = (xs, [], q1) \<and> \<not> fst (push y q1)
         \<and> fst (pop q1) \<noteq> None \<and> fst (push y (snd (pop q1)))"
    by blast
qed

theorem ring_buffer_full_empty_witness:
  "(1::nat) < 4 \<and> (4::nat) \<le> length [0, 0, 0, 0 :: nat] \<and> length [7, 8, 9 :: nat] = 4 - 1
   \<and> (\<exists>q1. run_ops (map Push [7, 8, 9]) (ring_buffer_init [0, 0, 0, 0 :: nat] 4) = ([7, 8, 9], [], q1)
         \<and> \<not> fst (push 5 q1)
         \<and> fst (pop q1) \<noteq> None
         \<and> fst (push 5 (snd (pop q1))))"
  using ring_buffer_full_empty [of 0 "ring_buffer_init [0, 0, 0, 0 :: nat] 4" 4 "[0, 0, 0, 0 :: nat]" "[7, 8, 9]" 5]
  by simp

text \<open>
  Claim C5.  FIFO order: for every sequence of pushes and pops on a fresh queue, the
  values returned by the successful pops are, in order, a prefix of the values accepted
  by the successful pushes; what is left over is exactly what the queue still holds.
\<close>

theorem ring_buffer_fifo:
  assumes "1 < C" and "C \<le> length buf"
    and "run_ops ops (ring_buffer_init buf C) = (ins, outs, q)"
  shows "prefix outs ins \<and> ins = outs @ rb_contents q"
  using run_ops_fifo [OF rb_init_wf [OF assms(1,2)] assms(3)]
  by (simp add: prefix_def)

theorem ring_buffer_fifo_witness:
  "(1::nat) < 3 \<and> (3::nat) \<le> length [0, 0, 0 :: nat]
   \<and> run_ops [Push 1, Push 2, Push 3, Pop, Push 4, Pop, Pop, Pop] (ring_buffer_init [0, 0, 0 :: nat] 3)
       = ([1, 2, 4], [1, 2, 4], \<lparr>buffer = [1, 2, 4], buffer_size = 3, prd = 0, cns = 0\<rparr>)
   \<and> prefix [1, 2, 4 :: nat] [1, 2, 4]"
proof -
  have r: "run_ops [Push 1, Push 2, Push 3, Pop, Push 4, Pop, Pop, Pop] (ring_buffer_init [0, 0, 0 :: nat] 3)
       = ([1, 2, 4], [1, 2, 4], \<lparr>buffer = [1, 2, 4], buffer_size = 3, prd = 0, cns = 0\<rparr>)"
    by (simp add: ring_buffer_init_def push_def pop_def Let_def)
  have h: "(1::nat) < 3" "(3::nat) \<le> length [0, 0, 0 :: nat]" by simp_all
  from ring_buffer_fifo [OF h r] h r show ?thesis by simp
qed

text \<open>
  Claim C10.  Index invariant: for a queue constructed with \<open>bufferSize > 1\<close>, after the
  constructor and after every sequence of pushes and pops both indices are below
  \<open>buffer_size\<close>, so the \<open>% buffer_size\<close> applied to the index of each storage access of
  \<open>push\<close> and \<open>pop\<close> leaves the index as it is.
\<close>

theorem ring_buffer_index_invariant:
  assumes "1 < bufferSize"
  shows "let q = snd (snd (run_ops ops (ring_buffer_init buf bufferSize))) in
     prd q < buffer_size q \<and> cns q < buffer_size q \<and> buffer_size q = bufferSize
     \<and> prd q mod buffer_size q = prd q \<and> cns q mod buffer_size q = cns q"
proof -
  let ?q0 = "ring_buffer_init buf bufferSize"
  have "1 < buffer_size ?q0" "rb_index_ok ?q0"
    using assms(1) by (simp_all add: ring_buffer_init_def rb_index_ok_def)
  from run_ops_index_ok [OF this, of ops] show ?thesis
    by (simp add: rb_index_ok_def ring_buffer_init_def Let_def)
qed

theorem ring_buffer_index_invariant_witness:
  "(1::nat) < 3 \<and>
   (let q = snd (snd (run_ops [Push 1, Push 2, Push 3, Pop, Push 4] (ring_buffer_init [0, 0, 0 :: nat] 3))) in
     prd q < buffer_size q \<and> cns q < buffer_size q \<and> buffer_size q = 3
     \<and> prd q mod buffer_size q = prd q \<and> cns q mod buffer_size q = cns q)"
  using ring_buffer_index_invariant [of 3 "[Push 1, Push 2, Push 3, Pop, Push 4]" "[0, 0, 0 :: nat]"]
  by simp

section \<open>Properties of the frame parser\<close>

subsection \<open>One call of \<open>poll\<close> processes the queued bytes in order\<close>

lemma poll_byte_rx:
  "poll_byte ch (s\<lparr>rx_queue := r\<rparr>) = (poll_byte ch s)\<lparr>rx_queue := r\<rparr>"
  by (simp add: poll_byte_def reset_def store_byte_def Let_def split: state_t.split prod.split bool.split)

lemma fold_poll_byte_rx:
  "fold poll_byte bs (s\<lparr>rx_queue := r\<rparr>) = (fold poll_byte bs s)\<lparr>rx_queue := r\<rparr>"
  by (induction bs arbitrary: s) (simp_all add: poll_byte_rx)

lemma pop_drained:
  "fst (pop q) = Some y \<Longrightarrow> rb_drained (snd (pop q)) = rb_drained q"
  by (simp add: pop_def rb_drained_def split: if_splits)

lemma poll_drains_aux:
  "rb_wf (rx_queue s) \<Longrightarrow> rb_count (rx_queue s) = n \<Longrightarrow>
     poll s = Some ((fold poll_byte (rb_contents (rx_queue s)) s)\<lparr>rx_queue := rb_drained (rx_queue s)\<rparr>)"
proof (induction n arbitrary: s)
  case 0
  then have e: "rb_contents (rx_queue s) = []" by (metis length_0_conv length_rb_contents)
  then have "prd (rx_queue s) = cns (rx_queue s)"
    using rb_contents_empty [OF "0.prems"(1)] by (simp add: rb_empty_def)
  then show ?case
    using e by (subst poll.simps) (simp add: pop_def rb_drained_def)
next
  case (Suc n)
  let ?rx = "rx_queue s"
  have ne: "rb_contents ?rx \<noteq> []" using Suc.prems(2) by (metis length_rb_contents list.size(3) nat.simps(3))
  then have "fst (pop ?rx) \<noteq> None"
    using rb_contents_empty [OF Suc.prems(1)] by (simp add: pop_empty)
  then obtain ch where ch: "fst (pop ?rx) = Some ch" by auto
  let ?rx' = "snd (pop ?rx)"
  have c: "rb_contents ?rx = ch # rb_contents ?rx'" using pop_contents [OF Suc.prems(1) ch] .
  let ?s1 = "poll_byte ch (s\<lparr>rx_queue := ?rx'\<rparr>)"
  have rx1: "rx_queue ?s1 = ?rx'" by (simp add: poll_byte_rx)
  have wf1: "rb_wf (rx_queue ?s1)" unfolding rx1 using Suc.prems(1) by (rule pop_wf)
  have n1: "rb_count (rx_queue ?s1) = n"
    unfolding rx1 using c Suc.prems(2) by (metis length_Cons length_rb_contents nat.inject)
  have "poll s = poll ?s1"
    by (subst poll.simps) (simp add: ch split: prod.split option.split, metis ch fst_conv option.inject option.distinct(1))
  also have "\<dots> = Some ((fold poll_byte (rb_contents ?rx') ?s1)\<lparr>rx_queue := rb_drained ?rx'\<rparr>)"
    using Suc.IH [OF wf1 n1] by (simp only: rx1)
  finally show ?case
    by (simp add: c poll_byte_rx fold_poll_byte_rx pop_drained [OF ch])
qed

lemma poll_drains:
  "rb_wf (rx_queue s) \<Longrightarrow>
     poll s = Some ((fold poll_byte (rb_contents (rx_queue s)) s)\<lparr>rx_queue := rb_drained (rx_queue s)\<rparr>)"
  by (rule poll_drains_aux [OF _ refl])

lemma rb_drained_contents [simp]: "rb_contents (rb_drained q) = []"
  by (simp add: rb_contents_def rb_count_def rb_drained_def)

lemma u16_id: "n < 65536 \<Longrightarrow> u16 (int n) = n"
  by (simp add: u16_def)

lemma write_at_step:
  "i < length buf \<Longrightarrow> write_at (buf[i := x]) (Suc i) xs = write_at buf i (x # xs)"
  by (simp add: write_at_def take_Suc_conv_app_nth)

lemma write_at_Nil: "write_at buf i [] = buf"
  by (simp add: write_at_def)

lemma fold_store_byte:
  "idx s + length xs \<le> length (workBuffer s) \<Longrightarrow> idx s + length xs < 65536 \<Longrightarrow>
     fold store_byte xs s =
       s\<lparr>workBuffer := write_at (workBuffer s) (idx s) xs, idx := idx s + length xs\<rparr>"
proof (induction xs arbitrary: s)
  case Nil
  then show ?case by (simp add: write_at_Nil)
next
  case (Cons x xs)
  have i: "u16 (int (idx s) + 1) = Suc (idx s)"
    using Cons.prems(2) u16_id [of "Suc (idx s)"] by (simp add: add.commute)
  have s1: "store_byte x s = s\<lparr>workBuffer := (workBuffer s)[idx s := x], idx := Suc (idx s)\<rparr>"
    by (simp add: store_byte_def i)
  have "fold store_byte xs (store_byte x s) =
      (store_byte x s)\<lparr>workBuffer := write_at (workBuffer (store_byte x s)) (idx (store_byte x s)) xs,
                         idx := idx (store_byte x s) + length xs\<rparr>"
    using Cons.prems by (intro Cons.IH) (simp_all add: s1)
  then show ?case
    using Cons.prems by (simp add: s1 write_at_step)
qed

lemma read_path_bytes:
  "state s = READ_PATH \<Longrightarrow> CHR '':'' \<notin> set xs \<Longrightarrow> idx s + length xs \<le> work_buf_size s \<Longrightarrow>
     work_buf_size s < 65536 \<Longrightarrow>
     fold poll_byte xs s = fold store_byte xs s"
proof (induction xs arbitrary: s)
  case Nil
  then show ?case by simp
next
  case (Cons x xs)
  have i: "u16 (int (idx s) + 1) = Suc (idx s)"
    using Cons.prems(3,4) u16_id [of "Suc (idx s)"] by (simp add: add.commute)
  have "x \<noteq> CHR '':''" using Cons.prems(2) by auto
  then have 1: "poll_byte x s = store_byte x s"
    using Cons.prems(1,3) by (simp add: poll_byte_def)
  have "fold poll_byte xs (store_byte x s) = fold store_byte xs (store_byte x s)"
    using Cons.prems by (intro Cons.IH) (simp_all add: store_byte_def i)
  then show ?case by (simp add: 1)
qed

lemma read_data_bytes:
  "state s = READ_DATA \<Longrightarrow> CHR ''}'' \<notin> set xs \<Longrightarrow> idx s + length xs \<le> work_buf_size s \<Longrightarrow>
     work_buf_size s < 65536 \<Longrightarrow>
     fold poll_byte xs s = fold store_byte xs s"
proof (induction xs arbitrary: s)
  case Nil
  then show ?case by simp
next
  case (Cons x xs)
  have i: "u16 (int (idx s) + 1) = Suc (idx s)"
    using Cons.prems(3,4) u16_id [of "Suc (idx s)"] by (simp add: add.commute)
  have "x \<noteq> CHR ''}''" using Cons.prems(2) by auto
  then have 1: "poll_byte x s = store_byte x s"
    using Cons.prems(1,3) by (simp add: poll_byte_def)
  have "fold poll_byte xs (store_byte x s) = fold store_byte xs (store_byte x s)"
    using Cons.prems by (intro Cons.IH) (simp_all add: store_byte_def i)
  then show ?case by (simp add: 1)
qed

subsection \<open>Single transitions\<close>

lemma write_at_length [simp]:
  "i + length xs \<le> length buf \<Longrightarrow> length (write_at buf i xs) = length buf"
  by (simp add: write_at_def)

lemma write_at_append:
  "i + length xs + length ys \<le> length buf \<Longrightarrow>
     write_at (write_at buf i xs) (i + length xs) ys = write_at buf i (xs @ ys)"
  by (simp add: write_at_def ac_simps)

lemma write_at_update:
  "i + length xs < length buf \<Longrightarrow>
     (write_at buf i xs)[i + length xs := x] = write_at buf i (xs @ [x])"
proof -
  assume a: "i + length xs < length buf"
  have "(write_at buf i xs)[i + length xs := x] = write_at ((write_at buf i xs)[i + length xs := x]) (Suc (i + length xs)) []"
    by (simp add: write_at_Nil)
  also have "\<dots> = write_at (write_at buf i xs) (i + length xs) [x]"
    using a by (intro write_at_step) simp
  also have "\<dots> = write_at buf i (xs @ [x])"
    using a by (intro write_at_append) simp
  finally show ?thesis .
qed


lemma step_start:
  "state s = WAIT_START \<or> state s = ERROR \<Longrightarrow> idx s < work_buf_size s \<Longrightarrow>
     poll_byte CHR ''{'' s = (reset s)\<lparr>state := WAIT_P\<rparr>"
  by (auto simp: poll_byte_def reset_def Let_def)

lemma step_p:
  "state s = WAIT_P \<Longrightarrow> idx s < work_buf_size s \<Longrightarrow>
     poll_byte CHR ''p'' s = s\<lparr>state := WAIT_P_COLON\<rparr>"
  by (simp add: poll_byte_def)

lemma step_p_colon:
  "state s = WAIT_P_COLON \<Longrightarrow> idx s < work_buf_size s \<Longrightarrow>
     poll_byte CHR '':'' s = s\<lparr>state := READ_PATH, path_ptr := Some (idx s)\<rparr>"
  by (simp add: poll_byte_def Let_def)

lemma step_path_end:
  "state s = READ_PATH \<Longrightarrow> idx s < work_buf_size s \<Longrightarrow> work_buf_size s < 65536 \<Longrightarrow>
     poll_byte CHR '':'' s =
       s\<lparr>workBuffer := (workBuffer s)[idx s := NUL], idx := idx s + 1,
         path_len := idx s, state := WAIT_D\<rparr>"
proof -
  assume a: "state s = READ_PATH" "idx s < work_buf_size s" "work_buf_size s < 65536"
  have 1: "u16 (int (idx s) + 1) = idx s + 1"
    using a u16_id [of "idx s + 1"] by (simp add: add.commute)
  have 2: "u16 (int (idx s + 1) - 1) = idx s"
    using a u16_id [of "idx s"] by simp
  show ?thesis
    using a by (simp add: poll_byte_def store_byte_def Let_def 1) (simp add: 2 [simplified])
qed

lemma step_d:
  "state s = WAIT_D \<Longrightarrow> idx s < work_buf_size s \<Longrightarrow>
     poll_byte CHR ''d'' s = s\<lparr>state := WAIT_D_COLON\<rparr>"
  by (simp add: poll_byte_def)

lemma step_d_colon:
  "state s = WAIT_D_COLON \<Longrightarrow> idx s < work_buf_size s \<Longrightarrow>
     poll_byte CHR '':'' s = s\<lparr>data_ptr := Some (idx s), state := READ_DATA\<rparr>"
  by (simp add: poll_byte_def)

lemma step_data_end:
  assumes "state s = READ_DATA" "idx s < work_buf_size s" "work_buf_size s < 65536"
    and "data_ptr s = Some d" "d \<le> idx s"
  shows "poll_byte CHR ''}'' s =
     (let s1 = s\<lparr>workBuffer := (workBuffer s)[idx s := NUL]\<rparr>;
          frame = \<lparr>cmnd_frame.path = path_ptr s, path_len = path_len s,
                   data = Some d, data_len = idx s - d\<rparr>
      in if rb_full (frame_queue s) then (reset s1)\<lparr>state := ERROR\<rparr>
         else reset (s1\<lparr>frame_queue := snd (push frame (frame_queue s))\<rparr>))"
proof -
  have 1: "u16 (int (idx s) + 1) = idx s + 1"
    using assms u16_id [of "idx s + 1"] by (simp add: add.commute)
  have 2: "u16 (int (idx s) - int d) = idx s - d"
    using assms u16_id [of "idx s - d"] by (simp add: of_nat_diff)
  have 3: "store_byte NUL s = s\<lparr>workBuffer := (workBuffer s)[idx s := NUL], idx := idx s + 1\<rparr>"
    by (simp add: store_byte_def 1)
  let ?frame = "\<lparr>cmnd_frame.path = path_ptr s, path_len = path_len s, data = Some d, data_len = idx s - d\<rparr>"
  show ?thesis
  proof (cases "rb_full (frame_queue s)")
    case True
    then have "push ?frame (frame_queue s) = (False, frame_queue s)"
      by (simp add: push_def rb_full_def Let_def)
    then show ?thesis
      using assms True by (simp add: poll_byte_def 3 Let_def 2 reset_def)
  next
    case False
    then have "fst (push ?frame (frame_queue s))"
      by (simp add: push_full)
    then obtain fq where fq: "push ?frame (frame_queue s) = (True, fq)"
      by (metis (full_types) prod.collapse)
    show ?thesis
      using assms False by (simp add: poll_byte_def 3 Let_def 2 reset_def fq)
  qed
qed

text \<open>The frame pointers are set whenever the state that reads them is reached, so the
  branch of \<open>poll_byte\<close> for a null \<open>data_ptr\<close> is not taken on any run from the
  constructor.\<close>

lemma ptrs_set_init: "ptrs_set (cmnd_parser_init rx fq wb n)"
  by (simp add: ptrs_set_def cmnd_parser_init_def)

lemma ptrs_set_poll_byte: "ptrs_set s \<Longrightarrow> ptrs_set (poll_byte ch s)"
  by (cases "state s")
     (auto simp: ptrs_set_def poll_byte_def reset_def store_byte_def Let_def split: prod.splits)

subsection \<open>A whole frame\<close>

lemma parse_frame_bytes:
  assumes st: "state s = WAIT_START \<or> state s = ERROR"
    and i0: "idx s < work_buf_size s"
    and P: "CHR '':'' \<notin> set P" and D: "CHR ''}'' \<notin> set D"
    and fit: "length P + length D + 2 \<le> work_buf_size s"
    and mem: "work_buf_size s \<le> length (workBuffer s)"
    and u: "work_buf_size s < 65536"
  shows "fold poll_byte (frame_bytes P D) s =
     (let s1 = s\<lparr>workBuffer := write_at (workBuffer s) 0 (P @ [NUL] @ D @ [NUL])\<rparr>;
          frame = \<lparr>cmnd_frame.path = Some 0, path_len = length P,
                   data = Some (length P + 1), data_len = length D\<rparr>
      in if rb_full (frame_queue s) then (reset s1)\<lparr>state := ERROR\<rparr>
         else reset (s1\<lparr>frame_queue := snd (push frame (frame_queue s))\<rparr>))"
proof -
  let ?wb = "workBuffer s"
  define s3 where "s3 = (reset s)\<lparr>state := READ_PATH, path_ptr := Some 0\<rparr>"
  have a1: "poll_byte CHR ''{'' s = (reset s)\<lparr>state := WAIT_P\<rparr>"
    using st i0 by (rule step_start)
  have a2: "poll_byte CHR ''p'' ((reset s)\<lparr>state := WAIT_P\<rparr>) = (reset s)\<lparr>state := WAIT_P_COLON\<rparr>"
    using i0 by (subst step_p) (simp_all add: reset_def)
  have a3: "poll_byte CHR '':'' ((reset s)\<lparr>state := WAIT_P_COLON\<rparr>) = s3"
    using i0 by (subst step_p_colon) (simp_all add: reset_def s3_def)
  have f3: "state s3 = READ_PATH" "idx s3 = 0" "work_buf_size s3 = work_buf_size s"
    "workBuffer s3 = ?wb"
    by (simp_all add: s3_def reset_def)
  define s4 where "s4 = s3\<lparr>workBuffer := write_at ?wb 0 P, idx := length P\<rparr>"
  have a4: "fold poll_byte P s3 = s4"
  proof -
    have "fold poll_byte P s3 = fold store_byte P s3"
      using P fit u by (intro read_path_bytes) (simp_all add: f3)
    also have "\<dots> = s4"
      using fit mem u by (subst fold_store_byte) (simp_all add: f3 s4_def)
    finally show ?thesis .
  qed
  have f4: "state s4 = READ_PATH" "idx s4 = length P" "work_buf_size s4 = work_buf_size s"
    "workBuffer s4 = write_at ?wb 0 P"
    by (simp_all add: s4_def f3)
  have w1: "(write_at ?wb 0 P)[length P := NUL] = write_at ?wb 0 (P @ [NUL])"
    using write_at_update [of 0 P ?wb NUL] fit mem by simp
  define s5 where "s5 = s4\<lparr>workBuffer := write_at ?wb 0 (P @ [NUL]), idx := length P + 1,
      path_len := length P, state := WAIT_D\<rparr>"
  have a5: "poll_byte CHR '':'' s4 = s5"
    using fit u by (subst step_path_end) (simp_all add: f4 w1 s5_def)
  have f5: "state s5 = WAIT_D" "idx s5 = length P + 1" "work_buf_size s5 = work_buf_size s"
    "workBuffer s5 = write_at ?wb 0 (P @ [NUL])"
    by (simp_all add: s5_def f4)
  have a6: "poll_byte CHR ''d'' s5 = s5\<lparr>state := WAIT_D_COLON\<rparr>"
    using fit by (subst step_d) (simp_all add: f5)
  define s7 where "s7 = s5\<lparr>data_ptr := Some (length P + 1), state := READ_DATA\<rparr>"
  have a7: "poll_byte CHR '':'' (s5\<lparr>state := WAIT_D_COLON\<rparr>) = s7"
    using fit by (subst step_d_colon) (simp_all add: f5 s7_def)
  have f7: "state s7 = READ_DATA" "idx s7 = length P + 1" "work_buf_size s7 = work_buf_size s"
    "workBuffer s7 = write_at ?wb 0 (P @ [NUL])"
    by (simp_all add: s7_def f5)
  define s8 where "s8 = s7\<lparr>workBuffer := write_at ?wb 0 (P @ [NUL] @ D), idx := length P + 1 + length D\<rparr>"
  have a8: "fold poll_byte D s7 = s8"
  proof -
    have "fold poll_byte D s7 = fold store_byte D s7"
      using D fit u by (intro read_data_bytes) (simp_all add: f7)
    also have "\<dots> = s8"
      using fit mem u write_at_append [of 0 "P @ [NUL]" D ?wb]
      by (subst fold_store_byte) (simp_all add: f7 s8_def)
    finally show ?thesis .
  qed
  have f8: "state s8 = READ_DATA" "idx s8 = length P + 1 + length D" "work_buf_size s8 = work_buf_size s"
    "workBuffer s8 = write_at ?wb 0 (P @ [NUL] @ D)" "data_ptr s8 = Some (length P + 1)"
    "path_ptr s8 = Some 0" "path_len s8 = length P" "frame_queue s8 = frame_queue s"
    by (simp_all add: s8_def s7_def s5_def s4_def s3_def reset_def)
  have w2: "(write_at ?wb 0 (P @ [NUL] @ D))[length P + 1 + length D := NUL]
      = write_at ?wb 0 (P @ [NUL] @ D @ [NUL])"
    using write_at_update [of 0 "P @ [NUL] @ D" ?wb NUL] fit mem by simp
  have r1: "reset (s8\<lparr>workBuffer := b\<rparr>) = reset (s\<lparr>workBuffer := b\<rparr>)" for b
    by (simp add: s8_def s7_def s5_def s4_def s3_def reset_def)
  have r2: "reset (s8\<lparr>workBuffer := b, frame_queue := q\<rparr>) = reset (s\<lparr>workBuffer := b, frame_queue := q\<rparr>)" for b q
    by (simp add: s8_def s7_def s5_def s4_def s3_def reset_def)
  have a9: "poll_byte CHR ''}'' s8 =
     (let s1 = s\<lparr>workBuffer := write_at (workBuffer s) 0 (P @ [NUL] @ D @ [NUL])\<rparr>;
          frame = \<lparr>cmnd_frame.path = Some 0, path_len = length P,
                   data = Some (length P + 1), data_len = length D\<rparr>
      in if rb_full (frame_queue s) then (reset s1)\<lparr>state := ERROR\<rparr>
         else reset (s1\<lparr>frame_queue := snd (push frame (frame_queue s))\<rparr>))"
    using fit u
    by (subst step_data_end [where d = "length P + 1"]) (simp_all add: f8 w2 [simplified] r1 r2 Let_def)
  have "fold poll_byte (frame_bytes P D) s
      = poll_byte CHR ''}'' (fold poll_byte D (poll_byte CHR '':'' (poll_byte CHR ''d'' (poll_byte CHR '':''
          (fold poll_byte P (poll_byte CHR '':'' (poll_byte CHR ''p'' (poll_byte CHR ''{'' s))))))))"
    unfolding frame_bytes_def by (simp only: fold_append o_apply fold_simps)
  then show ?thesis
    by (simp only: a1 a2 a3 a4 a5 a6 a7 a8 a9)
qed
lemma write_at_0: "length xs \<le> length buf \<Longrightarrow> write_at buf 0 xs = xs @ drop (length xs) buf"
  by (simp add: write_at_def)

lemma parsed_frame_result:
  assumes fit: "length P + length D + 2 \<le> length wb"
    and wf: "rb_wf fq" and nf: "\<not> rb_full fq"
    and fq: "frame_queue s = fq" and rx: "rb_contents (rx_queue s') = []"
    and s': "s' = (reset (e\<lparr>workBuffer := write_at wb 0 (P @ [NUL] @ D @ [NUL]),
         frame_queue := snd (push \<lparr>cmnd_frame.path = Some 0, path_len = length P,
                   data = Some (length P + 1), data_len = length D\<rparr> fq)\<rparr>))\<lparr>rx_queue := r\<rparr>"
  shows "one_frame_parsed s s' P D"
proof -
  let ?f = "\<lparr>cmnd_frame.path = Some 0, path_len = length P, data = Some (length P + 1), data_len = length D\<rparr>"
  have ok: "fst (push ?f fq)" using nf by (simp add: push_full)
  have c: "rb_contents (frame_queue s') = rb_contents (frame_queue s) @ [?f]"
    using push_contents [OF wf ok] by (simp add: s' reset_def fq)
  have w: "workBuffer s' = (P @ [NUL] @ D @ [NUL]) @ drop (length (P @ [NUL] @ D @ [NUL])) wb"
    using fit by (simp add: s' reset_def write_at_0)
  have p: "view (workBuffer s') (Some 0) (length P) = Some P"
    unfolding w by (simp add: view_def slice_def)
  have d: "view (workBuffer s') (Some (length P + 1)) (length D) = Some D"
    unfolding w by (simp add: view_def slice_def)
  have st: "state s' = WAIT_START" "idx s' = 0" by (simp_all add: s' reset_def)
  show ?thesis
    unfolding one_frame_parsed_def using c p d st rx by (intro conjI exI [of _ ?f]) simp_all
qed
lemma poll_frame:
  assumes "state s = WAIT_START" and "idx s = 0"
    and "rb_wf (rx_queue s)" and "rb_contents (rx_queue s) = frame_bytes P D"
    and "CHR '':'' \<notin> set P" and "CHR ''}'' \<notin> set D"
    and "length P + length D + 2 \<le> work_buf_size s"
    and "work_buf_size s \<le> length (workBuffer s)" and "work_buf_size s < 65536"
    and "rb_wf (frame_queue s)" and "\<not> rb_full (frame_queue s)"
  shows "\<exists>s'. poll s = Some s' \<and> one_frame_parsed s s' P D"
proof -
  have i0: "idx s < work_buf_size s" using assms(2,7) by simp
  have st: "state s = WAIT_START \<or> state s = ERROR" using assms(1) by simp
  let ?s' = "(fold poll_byte (frame_bytes P D) s)\<lparr>rx_queue := rb_drained (rx_queue s)\<rparr>"
  have p: "poll s = Some ?s'"
    using poll_drains [OF assms(3)] by (simp only: assms(4))
  have "one_frame_parsed s ?s' P D"
  proof (rule parsed_frame_result [where wb = "workBuffer s" and fq = "frame_queue s"])
    show "length P + length D + 2 \<le> length (workBuffer s)" using assms(7,8) by simp
    show "?s' = (reset (s\<lparr>workBuffer := write_at (workBuffer s) 0 (P @ [NUL] @ D @ [NUL]),
         frame_queue := snd (push \<lparr>cmnd_frame.path = Some 0, path_len = length P,
                   data = Some (length P + 1), data_len = length D\<rparr> (frame_queue s))\<rparr>))\<lparr>rx_queue := rb_drained (rx_queue s)\<rparr>"
      by (subst parse_frame_bytes [OF st i0 assms(5,6,7,8,9)]) (simp add: Let_def assms(11))
  qed (simp_all add: assms)
  with p show ?thesis by blast
qed
text \<open>
  Claim C2.  With the parser in \<open>WAIT_START\<close> at write index 0, the bytes
  \<open>{p:P:d:D}\<close> in the RX queue (no \<open>:\<close> in \<open>P\<close>, no \<open>}\<close> in \<open>D\<close>),
  \<open>|P| + |D| + 2\<close> not above the scratch capacity and a frame queue that is not full, one
  call of \<open>poll\<close> returns, has consumed the bytes, has pushed exactly one frame whose path
  slice is \<open>P\<close> with \<open>path_len = |P|\<close> and whose data slice is \<open>D\<close> with \<open>data_len = |D|\<close>, and
  leaves the parser in \<open>WAIT_START\<close>.
\<close>

theorem poll_parses_frame:
  assumes "state s = WAIT_START" and "idx s = 0"
    and "rb_wf (rx_queue s)" and "rb_contents (rx_queue s) = frame_bytes P D"
    and "CHR '':'' \<notin> set P" and "CHR ''}'' \<notin> set D"
    and "length P + length D + 2 \<le> work_buf_size s"
    and "work_buf_size s \<le> length (workBuffer s)" and "work_buf_size s < 65536"
    and "rb_wf (frame_queue s)" and "\<not> rb_full (frame_queue s)"
  shows "\<exists>s'. poll s = Some s' \<and> one_frame_parsed s s' P D"
  using assms by (rule poll_frame)

theorem poll_parses_frame_witness:
  "\<exists>s'. poll (cmnd_parser_init
        (snd (snd (run_ops (map Push ''{p:ab:d:1,2}'') (ring_buffer_init (replicate 16 NUL) 16))))
        (ring_buffer_init (replicate 4 empty_frame) 4) (replicate 8 NUL) 8) = Some s'
     \<and> one_frame_parsed (cmnd_parser_init
        (snd (snd (run_ops (map Push ''{p:ab:d:1,2}'') (ring_buffer_init (replicate 16 NUL) 16))))
        (ring_buffer_init (replicate 4 empty_frame) 4) (replicate 8 NUL) 8) s' ''ab'' ''1,2''"
proof -
  let ?rx = "snd (snd (run_ops (map Push ''{p:ab:d:1,2}'') (ring_buffer_init (replicate 16 NUL) 16)))"
  let ?s = "cmnd_parser_init ?rx (ring_buffer_init (replicate 4 empty_frame) 4) (replicate 8 NUL) 8"
  have rx: "?rx = \<lparr>buffer = ''{p:ab:d:1,2}'' @ replicate 4 NUL, buffer_size = 16, prd = 12, cns = 0\<rparr>"
    by code_simp
  show ?thesis
    unfolding rx
    apply (rule poll_parses_frame)
    apply (simp_all add: cmnd_parser_init_def rx rb_wf_def rb_contents_def rb_count_def
        frame_bytes_def ring_buffer_init_def rb_full_def upt_rec)
    done
qed

lemma error_state_skips:
  "CHR ''{'' \<notin> set junk \<Longrightarrow>
     fold poll_byte junk ((reset s)\<lparr>state := ERROR\<rparr>) = (reset s)\<lparr>state := ERROR\<rparr>"
proof (induction junk)
  case Nil
  then show ?case by simp
next
  case (Cons x xs)
  have "x \<noteq> CHR ''{''" using Cons.prems by auto
  then have "poll_byte x ((reset s)\<lparr>state := ERROR\<rparr>) = (reset s)\<lparr>state := ERROR\<rparr>"
    by (simp add: poll_byte_def reset_def Let_def)
  then show ?case using Cons by simp
qed

lemma recovery_frame:
  assumes "work_buf_size s \<le> idx s"
    and "rb_wf (rx_queue s)" and "rb_contents (rx_queue s) = b # junk @ frame_bytes P D"
    and "CHR ''{'' \<notin> set junk"
    and "CHR '':'' \<notin> set P" and "CHR ''}'' \<notin> set D"
    and "length P + length D + 2 \<le> work_buf_size s"
    and "work_buf_size s \<le> length (workBuffer s)" and "work_buf_size s < 65536"
    and "rb_wf (frame_queue s)" and "\<not> rb_full (frame_queue s)"
  shows "\<exists>s'. poll s = Some s' \<and> one_frame_parsed s s' P D"
proof -
  let ?e = "(reset s)\<lparr>state := ERROR\<rparr>"
  have fe: "state ?e = ERROR" "idx ?e = 0" "work_buf_size ?e = work_buf_size s"
    "workBuffer ?e = workBuffer s" "frame_queue ?e = frame_queue s"
    by (simp_all add: reset_def)
  have 1: "poll_byte b s = ?e" using assms(1) by (simp add: poll_byte_def)
  have 2: "fold poll_byte junk ?e = ?e"
    using assms(4) by (rule error_state_skips)
  have st: "state ?e = WAIT_START \<or> state ?e = ERROR" by (simp add: fe)
  have i0: "idx ?e < work_buf_size ?e" using assms(7) by (simp add: fe)
  let ?s' = "(fold poll_byte (b # junk @ frame_bytes P D) s)\<lparr>rx_queue := rb_drained (rx_queue s)\<rparr>"
  have p: "poll s = Some ?s'"
    using poll_drains [OF assms(2)] by (simp only: assms(3))
  have f: "fold poll_byte (b # junk @ frame_bytes P D) s = fold poll_byte (frame_bytes P D) ?e"
    by (simp only: fold_simps fold_append o_apply 1 2)
  have "one_frame_parsed s ?s' P D"
  proof (rule parsed_frame_result [where wb = "workBuffer s" and fq = "frame_queue s"])
    show "length P + length D + 2 \<le> length (workBuffer s)" using assms(7,8) by simp
    show "?s' = (reset (?e\<lparr>workBuffer := write_at (workBuffer s) 0 (P @ [NUL] @ D @ [NUL]),
         frame_queue := snd (push \<lparr>cmnd_frame.path = Some 0, path_len = length P,
                   data = Some (length P + 1), data_len = length D\<rparr> (frame_queue s))\<rparr>))\<lparr>rx_queue := rb_drained (rx_queue s)\<rparr>"
      unfolding f using assms(5,6,7,8,9)
      by (subst parse_frame_bytes [OF st i0]) (simp_all add: fe Let_def assms(11))
  qed (simp_all add: assms)
  with p show ?thesis by blast
qed

text \<open>
  Claim C6.  Overflow recovery.  Whenever the write index has reached the scratch
  capacity, the next byte \<open>b\<close>, whatever it is and whatever the state and the queues are,
  only resets the parser into \<open>ERROR\<close> and is not processed again.  In that \<open>ERROR\<close> state
  the bytes before the next \<open>{\<close> change nothing.  And when a well-formed frame that fits
  the scratch buffer starts at that \<open>{\<close> and the frame queue is not full, \<open>poll\<close> returns
  and has queued exactly that frame.
\<close>

theorem overflow_recovery:
  "(work_buf_size s \<le> idx s \<longrightarrow> poll_byte b s = (reset s)\<lparr>state := ERROR\<rparr>)
   \<and> (CHR ''{'' \<notin> set junk \<longrightarrow>
        fold poll_byte junk ((reset s)\<lparr>state := ERROR\<rparr>) = (reset s)\<lparr>state := ERROR\<rparr>)
   \<and> (work_buf_size s \<le> idx s
        \<and> rb_wf (rx_queue s) \<and> rb_contents (rx_queue s) = b # junk @ frame_bytes P D
        \<and> CHR ''{'' \<notin> set junk \<and> CHR '':'' \<notin> set P \<and> CHR ''}'' \<notin> set D
        \<and> length P + length D + 2 \<le> work_buf_size s
        \<and> work_buf_size s \<le> length (workBuffer s) \<and> work_buf_size s < 65536
        \<and> rb_wf (frame_queue s) \<and> \<not> rb_full (frame_queue s)
      \<longrightarrow> (\<exists>s'. poll s = Some s' \<and> one_frame_parsed s s' P D))"
proof (intro conjI impI)
  show "poll_byte b s = (reset s)\<lparr>state := ERROR\<rparr>" if "work_buf_size s \<le> idx s"
    using that by (simp add: poll_byte_def)
  show "fold poll_byte junk ((reset s)\<lparr>state := ERROR\<rparr>) = (reset s)\<lparr>state := ERROR\<rparr>"
    if "CHR ''{'' \<notin> set junk"
    using that by (rule error_state_skips)
  show "\<exists>s'. poll s = Some s' \<and> one_frame_parsed s s' P D"
    if "work_buf_size s \<le> idx s
        \<and> rb_wf (rx_queue s) \<and> rb_contents (rx_queue s) = b # junk @ frame_bytes P D
        \<and> CHR ''{'' \<notin> set junk \<and> CHR '':'' \<notin> set P \<and> CHR ''}'' \<notin> set D
        \<and> length P + length D + 2 \<le> work_buf_size s
        \<and> work_buf_size s \<le> length (workBuffer s) \<and> work_buf_size s < 65536
        \<and> rb_wf (frame_queue s) \<and> \<not> rb_full (frame_queue s)"
    using that recovery_frame [of s b junk P D] by blast
qed

theorem overflow_recovery_witness:
  "poll_byte CHR ''e''
     ((cmnd_parser_init
        (snd (snd (run_ops (map Push ''efg{p:a:d:1}'') (ring_buffer_init (replicate 16 NUL) 16))))
        (ring_buffer_init (replicate 4 empty_frame) 4) ''abcd'' 4)
      \<lparr>idx := 4, path_ptr := Some 0, state := READ_PATH\<rparr>)
   = (reset ((cmnd_parser_init
        (snd (snd (run_ops (map Push ''efg{p:a:d:1}'') (ring_buffer_init (replicate 16 NUL) 16))))
        (ring_buffer_init (replicate 4 empty_frame) 4) ''abcd'' 4)
      \<lparr>idx := 4, path_ptr := Some 0, state := READ_PATH\<rparr>))\<lparr>state := ERROR\<rparr>
   \<and> (\<exists>s'. poll ((cmnd_parser_init
        (snd (snd (run_ops (map Push ''efg{p:a:d:1}'') (ring_buffer_init (replicate 16 NUL) 16))))
        (ring_buffer_init (replicate 4 empty_frame) 4) ''abcd'' 4)
      \<lparr>idx := 4, path_ptr := Some 0, state := READ_PATH\<rparr>) = Some s'
      \<and> one_frame_parsed ((cmnd_parser_init
        (snd (snd (run_ops (map Push ''efg{p:a:d:1}'') (ring_buffer_init (replicate 16 NUL) 16))))
        (ring_buffer_init (replicate 4 empty_frame) 4) ''abcd'' 4)
      \<lparr>idx := 4, path_ptr := Some 0, state := READ_PATH\<rparr>) s' ''a'' ''1'')"
proof -
  let ?rx = "snd (snd (run_ops (map Push ''efg{p:a:d:1}'') (ring_buffer_init (replicate 16 NUL) 16)))"
  let ?s = "(cmnd_parser_init ?rx (ring_buffer_init (replicate 4 empty_frame) 4) ''abcd'' 4)
      \<lparr>idx := 4, path_ptr := Some 0, state := READ_PATH\<rparr>"
  have rx: "?rx = \<lparr>buffer = ''efg{p:a:d:1}'' @ replicate 4 NUL, buffer_size = 16, prd = 12, cns = 0\<rparr>"
    by code_simp
  have h: "work_buf_size ?s \<le> idx ?s
        \<and> rb_wf (rx_queue ?s) \<and> rb_contents (rx_queue ?s) = CHR ''e'' # ''fg'' @ frame_bytes ''a'' ''1''
        \<and> CHR ''{'' \<notin> set ''fg'' \<and> CHR '':'' \<notin> set ''a'' \<and> CHR ''}'' \<notin> set ''1''
        \<and> length ''a'' + length ''1'' + 2 \<le> work_buf_size ?s
        \<and> work_buf_size ?s \<le> length (workBuffer ?s) \<and> work_buf_size ?s < 65536
        \<and> rb_wf (frame_queue ?s) \<and> \<not> rb_full (frame_queue ?s)"
    unfolding rx
    by (simp add: cmnd_parser_init_def rb_wf_def rb_contents_def rb_count_def
        frame_bytes_def ring_buffer_init_def rb_full_def upt_rec)
  from overflow_recovery [of ?s "CHR ''e''" "''fg''" "''a''" "''1''"] h
  show ?thesis by blast
qed

section \<open>Properties of the frame encoder\<close>

subsection \<open>What each output function appends to the TX queue\<close>

lemma emitsI:
  assumes "\<And>tx. rb_wf tx \<Longrightarrow> rb_wf (snd (f tx))"
    and "\<And>tx. rb_wf tx \<Longrightarrow> buffer_size (snd (f tx)) = buffer_size tx"
    and "\<And>tx. rb_wf tx \<Longrightarrow> fst (f tx) \<Longrightarrow> rb_contents (snd (f tx)) = rb_contents tx @ s"
    and "\<And>tx. rb_wf tx \<Longrightarrow> rb_count tx + length s < buffer_size tx \<Longrightarrow> fst (f tx)"
  shows "emits f s"
  using assms by (simp add: emits_def)

lemma emits_return: "emits (\<lambda>tx. (True, tx)) []"
  by (simp add: emits_def)

lemma emits_push_char: "emits (push_char c) [c]"
proof (rule emitsI)
  fix tx :: "char ring_buffer"
  assume wf: "rb_wf tx"
  show "rb_wf (snd (push_char c tx))" using wf by (simp add: push_char_def push_wf)
  show "buffer_size (snd (push_char c tx)) = buffer_size tx" by (simp add: push_char_def)
  show "rb_contents (snd (push_char c tx)) = rb_contents tx @ [c]" if "fst (push_char c tx)"
    using that wf by (simp add: push_char_def push_contents)
  show "fst (push_char c tx)" if "rb_count tx + length [c] < buffer_size tx"
    using that wf by (simp add: push_char_def push_full rb_full_count)
qed

lemma emits_seq:
  assumes f: "emits f s" and g: "emits g t"
  shows "emits (\<lambda>tx. case f tx of (ok, tx1) \<Rightarrow> if \<not> ok then (False, tx1) else g tx1) (s @ t)"
proof (rule emitsI)
  fix tx :: "char ring_buffer"
  assume wf: "rb_wf tx"
  let ?h = "\<lambda>tx. case f tx of (ok, tx1) \<Rightarrow> if \<not> ok then (False, tx1) else g tx1"
  have h: "?h tx = (if fst (f tx) then g (snd (f tx)) else (False, snd (f tx)))"
    by (simp add: split_beta)
  from f wf have f1: "rb_wf (snd (f tx))" "buffer_size (snd (f tx)) = buffer_size tx"
    "fst (f tx) \<Longrightarrow> rb_contents (snd (f tx)) = rb_contents tx @ s"
    "rb_count tx + length s < buffer_size tx \<Longrightarrow> fst (f tx)"
    by (simp_all add: emits_def)
  from g f1(1) have g1: "rb_wf (snd (g (snd (f tx))))"
    "buffer_size (snd (g (snd (f tx)))) = buffer_size (snd (f tx))"
    "fst (g (snd (f tx))) \<Longrightarrow> rb_contents (snd (g (snd (f tx)))) = rb_contents (snd (f tx)) @ t"
    "rb_count (snd (f tx)) + length t < buffer_size (snd (f tx)) \<Longrightarrow> fst (g (snd (f tx)))"
    by (simp_all add: emits_def)
  show "rb_wf (snd (?h tx))" using f1 g1 by (simp add: h)
  show "buffer_size (snd (?h tx)) = buffer_size tx" using f1 g1 by (simp add: h)
  show "rb_contents (snd (?h tx)) = rb_contents tx @ s @ t" if "fst (?h tx)"
    using that f1 g1 by (simp add: h split: if_splits)
  show "fst (?h tx)" if a: "rb_count tx + length (s @ t) < buffer_size tx"
  proof -
    have 1: "fst (f tx)" using a f1(4) by simp
    have "rb_count (snd (f tx)) = rb_count tx + length s"
      using f1(3) [OF 1] by (metis length_append length_rb_contents)
    then have "fst (g (snd (f tx)))" using a g1(4) f1(2) by simp
    with 1 show ?thesis by (simp add: h)
  qed
qed

lemma emits_cong: "emits f s \<Longrightarrow> s = t \<Longrightarrow> emits f t"
  by simp

lemma emits_push_string: "emits (push_string s) s"
proof (induction s)
  case Nil
  have "push_string [] = (\<lambda>tx. (True, tx))" by (rule ext) simp
  then show ?case by (simp add: emits_return)
next
  case (Cons c s)
  have "push_string (c # s) =
      (\<lambda>tx. case push_char c tx of (ok, tx1) \<Rightarrow> if \<not> ok then (False, tx1) else push_string s tx1)"
    by (rule ext) simp
  moreover have "emits \<dots> ([c] @ s)"
    by (intro emits_seq emits_push_char Cons.IH)
  ultimately show ?case by simp
qed

lemma emits_emit_rev: "i \<le> length buf \<Longrightarrow> emits (emit_rev buf i) (rev (take i buf))"
proof (induction i)
  case 0
  have "emit_rev buf 0 = (\<lambda>tx. (True, tx))" by (rule ext) simp
  then show ?case by (simp add: emits_return)
next
  case (Suc i)
  have "emit_rev buf (Suc i) =
      (\<lambda>tx. case push_char (buf ! i) tx of (ok, tx1) \<Rightarrow> if \<not> ok then (False, tx1) else emit_rev buf i tx1)"
    by (rule ext) simp
  moreover have "emits \<dots> ([buf ! i] @ rev (take i buf))"
    using Suc by (intro emits_seq emits_push_char Suc.IH) simp
  moreover have "rev (take (Suc i) buf) = [buf ! i] @ rev (take i buf)"
    using Suc.prems by (simp add: take_Suc_conv_app_nth)
  ultimately show ?case by simp
qed

lemma emits_begin_frame: "emits (begin_frame P) (''{p:'' @ P @ '':d:'')"
proof -
  have "begin_frame P = (\<lambda>tx_queue.
      case push_char CHR ''{'' tx_queue of (ok, tx1) \<Rightarrow> if \<not> ok then (False, tx1) else
      case push_char CHR ''p'' tx1 of (ok, tx2) \<Rightarrow> if \<not> ok then (False, tx2) else
      case push_char CHR '':'' tx2 of (ok, tx3) \<Rightarrow> if \<not> ok then (False, tx3) else
      case push_string P tx3 of (ok, tx4) \<Rightarrow> if \<not> ok then (False, tx4) else
      case push_char CHR '':'' tx4 of (ok, tx5) \<Rightarrow> if \<not> ok then (False, tx5) else
      case push_char CHR ''d'' tx5 of (ok, tx6) \<Rightarrow> if \<not> ok then (False, tx6) else
      case push_char CHR '':'' tx6 of (ok, tx7) \<Rightarrow> if \<not> ok then (False, tx7) else
      (True, tx7))"
    by (rule ext) (simp add: begin_frame_def)
  moreover have "emits \<dots> ([CHR ''{''] @ [CHR ''p''] @ [CHR '':''] @ P @ [CHR '':''] @ [CHR ''d''] @ [CHR '':''] @ [])"
    by (intro emits_seq emits_push_char emits_push_string emits_return)
  ultimately show ?thesis by simp
qed

lemma emits_end_frame: "emits end_frame ''}''"
proof -
  have "end_frame = (\<lambda>tx_queue.
     case push_char CHR ''}'' tx_queue of (ok, tx1) \<Rightarrow> if \<not> ok then (False, tx1) else (True, tx1))"
    by (rule ext) (simp add: end_frame_def)
  moreover have "emits \<dots> ([CHR ''}''] @ [])"
    by (intro emits_seq emits_push_char emits_return)
  ultimately show ?thesis by simp
qed

subsection \<open>Decimal digits\<close>

lemma rev_digits_0 [simp]: "rev_digits 0 = []"
  by (simp add: rev_digits.simps)

lemma rev_digits_pos: "0 < n \<Longrightarrow> rev_digits n = digit_char (n mod 10) # rev_digits (n div 10)"
  by (subst rev_digits.simps) simp

lemma rev_rev_digits: "0 < n \<Longrightarrow> rev (rev_digits n) = dec_digits n"
proof (induction n rule: less_induct)
  case (less n)
  show ?case
  proof (cases "n < 10")
    case True
    then have "n div 10 = 0" "n mod 10 = n" by simp_all
    with less.prems True show ?thesis
      by (simp add: rev_digits_pos dec_digits.simps [of n])
  next
    case False
    then have "0 < n div 10" "n div 10 < n" by simp_all
    with less.IH have "rev (rev_digits (n div 10)) = dec_digits (n div 10)" by simp
    with less.prems False show ?thesis
      by (simp add: rev_digits_pos dec_digits.simps [of n])
  qed
qed

lemma length_rev_digits: "n < 10 ^ k \<Longrightarrow> length (rev_digits n) \<le> k"
proof (induction k arbitrary: n)
  case 0
  then show ?case by simp
next
  case (Suc k)
  show ?case
  proof (cases "n = 0")
    case True
    then show ?thesis by simp
  next
    case False
    from Suc.prems have "n div 10 < 10 ^ k" by (simp add: less_mult_imp_div_less mult.commute)
    from Suc.IH [OF this] False show ?thesis by (simp add: rev_digits_pos)
  qed
qed

lemma sint_pos_div10:
  fixes v :: "32 word"
  assumes "0 < sint v"
  shows "sint (word_of_int (sint v sdiv 10) :: 32 word) = sint v div 10"
    and "sint v smod 10 = sint v mod 10"
proof -
  have up: "sint v < 2 ^ 31" using sint_lt [of v] by simp
  have q: "sint v sdiv 10 = sint v div 10"
    using assms by (simp add: signed_divide_int_def sgn_if)
  have r: "- (2 ^ 31) \<le> sint v div 10" "sint v div 10 < 2 ^ 31"
    using assms up by simp_all
  show "sint (word_of_int (sint v sdiv 10) :: 32 word) = sint v div 10"
    using r by (simp add: q sint_sbintrunc' signed_take_bit_int_eq_self)
  show "sint v smod 10 = sint v mod 10"
    using assms by (simp add: signed_modulo_int_def sgn_if)
qed

lemma digit_char_int:
  "0 \<le> k \<Longrightarrow> char_of (48 + k :: int) = digit_char (nat k)"
proof -
  assume "0 \<le> k"
  then have "(48 + k :: int) = int (48 + nat k)" by simp
  then have "char_of (48 + k :: int) = char_of (48 + nat k)" by (metis char_of_nat)
  then show ?thesis by (simp add: digit_char_def)
qed

lemma digits_loop_correct:
  "0 \<le> sint v \<Longrightarrow> i + length (rev_digits (nat (sint v))) \<le> length buf \<Longrightarrow>
     digits_loop v buf i = (buf', i') \<Longrightarrow>
     i' = i + length (rev_digits (nat (sint v))) \<and> length buf' = length buf
     \<and> take i' buf' = take i buf @ rev_digits (nat (sint v))"
proof (induction v buf i rule: digits_loop.induct)
  case (1 v buf i)
  show ?case
  proof (cases "0 <s v")
    case False
    with "1.prems"(1) have z: "nat (sint v) = 0" by (simp add: word_sless_alt)
    have "digits_loop v buf i = (buf, i)"
      using False by (subst digits_loop.simps) simp
    with "1.prems"(3) show ?thesis
      by (simp add: z)
  next
    case True
    then have pos: "0 < sint v" by (simp add: word_sless_alt)
    let ?n = "nat (sint v)"
    let ?v' = "word_of_int (sint v sdiv 10) :: 32 word"
    let ?c = "char_of (of_char CHR ''0'' + sint v smod 10 :: int)"
    have n': "nat (sint ?v') = ?n div 10"
      using pos by (simp add: sint_pos_div10 nat_div_distrib)
    have c: "char_of (48 + sint v smod 10 :: int) = digit_char (?n mod 10)"
      using pos by (simp add: sint_pos_div10 digit_char_int nat_mod_distrib)
    have rd: "rev_digits ?n = digit_char (?n mod 10) # rev_digits (?n div 10)"
      using pos by (intro rev_digits_pos) simp
    have p1: "0 \<le> sint ?v'" using pos by (simp add: sint_pos_div10)
    have p2: "(i + 1) + length (rev_digits (nat (sint ?v'))) \<le> length (buf[i := ?c])"
      using "1.prems"(2) by (simp add: n' rd)
    have "digits_loop v buf i = digits_loop ?v' (buf[i := ?c]) (i + 1)"
      using True by (subst digits_loop.simps) simp
    then have p3: "digits_loop ?v' (buf[i := ?c]) (i + 1) = (buf', i')"
      using "1.prems"(3) by simp
    from "1.IH" [OF True p1 p2 p3]
    have ih0: "i' = (i + 1) + length (rev_digits (nat (sint ?v'))) \<and> length buf' = length (buf[i := ?c])
      \<and> take i' buf' = take (i + 1) (buf[i := ?c]) @ rev_digits (nat (sint ?v'))" .
    have ih: "i' = i + 1 + length (rev_digits (?n div 10))" "length buf' = length buf"
      using ih0 by (simp_all add: n')
    have ih3: "take i' buf' = take (i + 1) (buf[i := ?c]) @ rev_digits (?n div 10)"
      using ih0 unfolding n' by blast
    have "i < length buf" using "1.prems"(2) by (simp add: rd)
    then have "take (i + 1) (buf[i := ?c]) = take i buf @ [?c]"
      by (simp add: take_Suc_conv_app_nth)
    with ih ih3 show ?thesis by (simp add: rd c)
  qed
qed

lemma sint_neg:
  fixes v :: "32 word"
  assumes "v \<noteq> INT32_MIN"
  shows "sint (- v) = - sint v"
proof -
  have "sint v \<noteq> - (2 ^ 31)"
  proof
    assume "sint v = - (2 ^ 31)"
    then have "word_of_int (sint v) = (word_of_int (- (2 ^ 31)) :: 32 word)" by simp
    then have "v = INT32_MIN" by (simp add: INT32_MIN_def)
    with assms show False by simp
  qed
  moreover have "- (2 ^ 31) \<le> sint v" "sint v < 2 ^ 31"
    using sint_ge [of v] sint_lt [of v] by simp_all
  ultimately have "- (2 ^ 31) \<le> - sint v" "- sint v < 2 ^ 31" by simp_all
  then show ?thesis
    by (simp add: sint_word_minus signed_take_bit_int_eq_self)
qed

lemma digit_char_simps:
  "digit_char 0 = CHR ''0''" "digit_char (Suc 0) = CHR ''1''" "digit_char 2 = CHR ''2''"
  "digit_char 3 = CHR ''3''" "digit_char 4 = CHR ''4''" "digit_char 5 = CHR ''5''"
  "digit_char 6 = CHR ''6''" "digit_char 7 = CHR ''7''" "digit_char 8 = CHR ''8''"
  "digit_char 9 = CHR ''9''"
  by code_simp+

lemma decimal_INT32_MIN: "decimal (sint INT32_MIN) = ''-2147483648''"
  by (simp add: INT32_MIN_def decimal_def dec_digits.simps digit_char_simps)

lemma emits_push_int: "emits (push_int v) (decimal (sint v))"
proof (cases "v = INT32_MIN")
  case True
  then have "push_int v = push_string ''-2147483648''"
    by (intro ext) (simp add: push_int_def)
  with True show ?thesis by (simp only: decimal_INT32_MIN emits_push_string)
next
  case nm: False
  show ?thesis
  proof (cases "v = 0")
    case True
    then have "push_int v = push_char CHR ''0''"
      by (intro ext) (simp add: push_int_def INT32_MIN_def)
    moreover have "decimal (sint (0 :: 32 word)) = ''0''"
      by (simp add: decimal_def dec_digits.simps digit_char_simps)
    ultimately show ?thesis using True emits_push_char [of "CHR ''0''"] by simp
  next
    case nz: False
    define v1 where "v1 = (if v <s 0 then - v else v)"
    have s1: "sint v1 = \<bar>sint v\<bar>"
      using sint_neg [OF nm] by (simp add: v1_def word_sless_alt)
    have "sint v \<noteq> 0" using nz by (simp add: signed_eq_0_iff)
    then have pos: "0 < sint v1" using s1 by simp
    let ?n = "nat (sint v1)"
    have "sint v1 < 2 ^ 31" using sint_lt [of v1] by simp
    then have "?n < 10 ^ 10" using pos by simp
    then have len: "length (rev_digits ?n) \<le> 10" by (rule length_rev_digits)
    obtain buf1 i1 where dl: "digits_loop v1 (replicate 12 NUL) 0 = (buf1, i1)"
      by (cases "digits_loop v1 (replicate 12 NUL) 0")
    have "0 \<le> sint v1" "0 + length (rev_digits ?n) \<le> length (replicate 12 NUL)"
      using pos len by simp_all
    from digits_loop_correct [OF this dl]
    have r: "i1 = length (rev_digits ?n)" "length buf1 = 12" "take i1 buf1 = rev_digits ?n"
      by auto
    have dd: "rev (rev_digits ?n) = dec_digits ?n"
      using pos by (intro rev_rev_digits) simp
    show ?thesis
    proof (cases "v <s 0")
      case True
      then have neg: "sint v < 0" by (simp add: word_sless_alt)
      have "v1 = - v" using True by (simp add: v1_def)
      then have pi: "push_int v = emit_rev (buf1[i1 := CHR ''-'']) (i1 + 1)"
        using nm nz True dl by (intro ext) (simp add: push_int_def Let_def)
      have "i1 < length buf1" using r len by simp
      then have "take (i1 + 1) (buf1[i1 := CHR ''-'']) = rev_digits ?n @ ''-''"
        using r(3) by (simp add: take_Suc_conv_app_nth)
      moreover have "emits (emit_rev (buf1[i1 := CHR ''-'']) (i1 + 1)) (rev (take (i1 + 1) (buf1[i1 := CHR ''-''])))"
        using r len by (intro emits_emit_rev) simp
      moreover have "decimal (sint v) = CHR ''-'' # dec_digits ?n"
        using neg s1 by (simp add: decimal_def)
      ultimately show ?thesis by (simp add: pi dd)
    next
      case False
      then have nn: "0 \<le> sint v" by (simp add: word_sless_alt)
      have "v1 = v" using False by (simp add: v1_def)
      then have pi: "push_int v = emit_rev buf1 i1"
        using nm nz False dl by (intro ext) (simp add: push_int_def Let_def)
      have "emits (emit_rev buf1 i1) (rev (take i1 buf1))"
        using r len by (intro emits_emit_rev) simp
      moreover have "decimal (sint v) = dec_digits ?n"
        using nn s1 by (simp add: decimal_def)
      ultimately show ?thesis by (simp add: pi dd r(3))
    qed
  qed
qed
lemma emits_send_int_loop:
  "emits (send_int_loop values count i)
     (concat (map (\<lambda>k. (if k \<noteq> 0 then '','' else []) @ decimal (sint (values ! k))) [i..<count]))"
proof (induction "count - i" arbitrary: i)
  case 0
  then have "send_int_loop values count i = (\<lambda>tx. (True, tx))"
    by (intro ext) (simp add: send_int_loop.simps [of "values" count i])
  with 0 show ?case by (simp add: emits_return)
next
  case (Suc n)
  then have lt: "i < count" by simp
  define sepf where "sepf = (if i \<noteq> 0 then push_char CHR '','' else (\<lambda>tx. (True, tx)))"
  have sep: "emits sepf (if i \<noteq> 0 then '','' else [])"
    using emits_push_char [of "CHR '',''"] by (simp add: sepf_def emits_return)
  have "send_int_loop values count i =
      (\<lambda>tx. case sepf tx of (ok, tx1) \<Rightarrow> if \<not> ok then (False, tx1) else
         case push_int (values ! i) tx1 of (ok, tx2) \<Rightarrow> if \<not> ok then (False, tx2) else
         send_int_loop values count (i + 1) tx2)"
    using lt by (intro ext) (simp add: send_int_loop.simps [of "values" count i] sepf_def)
  moreover have "emits \<dots> ((if i \<noteq> 0 then '','' else []) @ decimal (sint (values ! i)) @
      concat (map (\<lambda>k. (if k \<noteq> 0 then '','' else []) @ decimal (sint (values ! k))) [i + 1..<count]))"
    using Suc.hyps(2) by (intro emits_seq sep emits_push_int Suc.hyps(1)) simp
  ultimately show ?case using lt by (simp add: upt_conv_Cons)
qed

lemma map_nth_upt_drop:
  "j \<le> length xs \<Longrightarrow> map (\<lambda>k. h (xs ! k)) [i..<j] = map h (drop i (take j xs))"
proof (induction "j - i" arbitrary: i)
  case 0
  then show ?case by simp
next
  case (Suc n)
  then have lt: "i < j" by simp
  have "map (\<lambda>k. h (xs ! k)) [Suc i..<j] = map h (drop (Suc i) (take j xs))"
    using Suc by (intro Suc.hyps(1)) simp_all
  moreover have "drop i (take j xs) = xs ! i # drop (Suc i) (take j xs)"
    using lt Suc.prems by (simp add: Cons_nth_drop_Suc [symmetric])
  ultimately show ?case using lt by (simp add: upt_conv_Cons)
qed

lemma loop_string_csv:
  assumes "count \<le> length values"
  shows "concat (map (\<lambda>k. (if k \<noteq> 0 then '','' else []) @ h (values ! k)) [0..<count])
     = csv (map h (take count values))"
proof (cases count)
  case 0
  then show ?thesis by (simp add: csv_def)
next
  case (Suc n)
  define g where "g = (\<lambda>k. (if k \<noteq> 0 then '','' else []) @ h (values ! k))"
  have 1: "map g [Suc 0..<count] = map (\<lambda>k. CHR '','' # h (values ! k)) [Suc 0..<count]"
    by (intro map_cong) (auto simp: g_def)
  have 2: "map (\<lambda>k. CHR '','' # h (values ! k)) [Suc 0..<count]
      = map (\<lambda>y. CHR '','' # h y) (drop (Suc 0) (take count values))"
    using assms by (rule map_nth_upt_drop)
  have 3: "take count values = values ! 0 # drop (Suc 0) (take count values)"
    using assms Suc by (cases "values") simp_all
  have 4: "csv (map h (take count values)) =
      h (values ! 0) @ concat (map (\<lambda>y. CHR '','' # h y) (drop (Suc 0) (take count values)))"
    by (subst 3) (simp add: csv_def comp_def)
  have 5: "[0..<count] = 0 # [Suc 0..<count]"
    using Suc by (simp add: upt_conv_Cons)
  have "concat (map g [0..<count]) = g 0 @ concat (map g [Suc 0..<count])"
    by (simp only: 5 list.map concat.simps)
  also have "g 0 = h (values ! 0)" by (simp add: g_def)
  finally show ?thesis by (simp only: 1 2 4 g_def [symmetric])
qed

lemma emits_send_int:
  assumes "count \<le> length values"
  shows "emits (send_int P values count)
           (frame_bytes P (csv (map (\<lambda>v. decimal (sint v)) (take count values))))"
proof -
  have "send_int P values count = (\<lambda>tx_queue.
      case begin_frame P tx_queue of (ok, tx1) \<Rightarrow> if \<not> ok then (False, tx1) else
      case send_int_loop values count 0 tx1 of (ok, tx2) \<Rightarrow> if \<not> ok then (False, tx2) else
      end_frame tx2)"
    by (rule ext) (simp add: send_int_def)
  moreover have "emits \<dots> ((''{p:'' @ P @ '':d:'') @
      concat (map (\<lambda>k. (if k \<noteq> 0 then '','' else []) @ decimal (sint (values ! k))) [0..<count]) @ ''}'')"
    by (intro emits_seq emits_begin_frame emits_send_int_loop emits_end_frame)
  ultimately show ?thesis
    by (simp only: frame_bytes_def loop_string_csv [OF assms, of "\<lambda>v. decimal (sint v)"] append_assoc)
qed
lemma digit_less_10_cases:
  "d < 10 \<Longrightarrow> d = 0 \<or> d = Suc 0 \<or> d = 2 \<or> d = 3 \<or> d = 4 \<or> d = 5 \<or> d = 6 \<or> d = 7 \<or> d = 8 \<or> d = (9::nat)"
  by arith

lemma is_digit_digit_char: "d < 10 \<Longrightarrow> is_digit (digit_char d)"
  using digit_less_10_cases [of d] by (auto simp: is_digit_def digit_char_simps)

lemma digit_val_digit_char: "d < 10 \<Longrightarrow> digit_val (digit_char d) = d"
  using digit_less_10_cases [of d] by (auto simp: digit_val_def digit_char_simps)

lemma digit_char_eq_0: "d < 10 \<Longrightarrow> digit_char d = CHR ''0'' \<Longrightarrow> d = 0"
  using digit_less_10_cases [of d] by (auto simp: digit_char_simps)

lemma dec_digits_small: "n < 10 \<Longrightarrow> dec_digits n = [digit_char n]"
  by (subst dec_digits.simps) simp

lemma dec_digits_large:
  "\<not> n < 10 \<Longrightarrow> dec_digits n = dec_digits (n div 10) @ [digit_char (n mod 10)]"
  by (subst dec_digits.simps) simp

lemma dec_digits_props:
  "dec_digits n \<noteq> [] \<and> list_all is_digit (dec_digits n) \<and> dec_value (dec_digits n) = n
   \<and> (0 < n \<longrightarrow> hd (dec_digits n) \<noteq> CHR ''0'')"
proof (induction n rule: less_induct)
  case (less n)
  show ?case
  proof (cases "n < 10")
    case True
    then show ?thesis
      using digit_char_eq_0 [of n]
      by (auto simp: dec_digits_small is_digit_digit_char dec_value_def digit_val_digit_char)
  next
    case False
    then have lt: "n div 10 < n" "0 < n div 10" by simp_all
    from less.IH [OF lt(1)] lt(2)
    have ih: "dec_digits (n div 10) \<noteq> []" "list_all is_digit (dec_digits (n div 10))"
      "dec_value (dec_digits (n div 10)) = n div 10" "hd (dec_digits (n div 10)) \<noteq> CHR ''0''"
      by auto
    have "dec_value (dec_digits n) = 10 * (n div 10) + n mod 10"
      using ih(3) by (simp add: dec_digits_large [OF False] dec_value_def digit_val_digit_char)
    then have v: "dec_value (dec_digits n) = n" by simp
    show ?thesis
      using ih v by (simp add: dec_digits_large [OF False] is_digit_digit_char)
  qed
qed

lemma dec_digits_0: "dec_digits 0 = ''0''"
  by (simp add: dec_digits_small digit_char_simps)

lemma canonical_decimal_decimal: "canonical_decimal k (decimal k)"
proof (cases "k = 0")
  case True
  then show ?thesis
    using dec_digits_props [of 0]
    by (simp add: canonical_decimal_def decimal_def dec_digits_0)
next
  case False
  then have "0 < nat \<bar>k\<bar>" by simp
  with dec_digits_props [of "nat \<bar>k\<bar>"] show ?thesis
    by (cases "k < 0") (simp_all add: canonical_decimal_def decimal_def Let_def)
qed

lemma length_dec_digits: "n < 10 ^ 10 \<Longrightarrow> length (dec_digits n) \<le> 10"
proof (cases "n = 0")
  case True
  then show ?thesis by (simp add: dec_digits_0)
next
  case False
  assume "n < 10 ^ 10"
  then have "length (rev_digits n) \<le> 10" by (rule length_rev_digits)
  moreover have "rev (rev_digits n) = dec_digits n" using False by (intro rev_rev_digits) simp
  ultimately show ?thesis by (metis length_rev)
qed

lemma length_decimal_sint:
  fixes v :: "32 word"
  shows "length (decimal (sint v)) \<le> 11"
proof -
  have "- (2 ^ 31) \<le> sint v" "sint v < 2 ^ 31"
    using sint_ge [of v] sint_lt [of v] by simp_all
  then have "nat \<bar>sint v\<bar> < 10 ^ 10" by simp
  from length_dec_digits [OF this] show ?thesis
    by (cases "sint v < 0") (simp_all add: decimal_def)
qed

lemma decimal_chars: "c \<in> set (decimal k) \<Longrightarrow> is_digit c \<or> c = CHR ''-''"
  using dec_digits_props [of "nat (- k)"] dec_digits_props [of "nat k"]
  by (auto simp: decimal_def list_all_iff split: if_splits)

text \<open>
  Claim C9.  For every \<open>int32_t\<close> value \<open>v\<close>, \<open>push_int\<close> returns true exactly when the
  canonical decimal representation of \<open>v\<close> fits into the TX queue, and then it has
  appended exactly that string: digits only, no leading zero (a single \<open>0\<close> for 0), a \<open>-\<close>
  in front of a negative value, at most eleven characters, and \<open>-2147483648\<close> for
  \<open>INT32_MIN\<close>.
\<close>

theorem push_int_canonical_decimal:
  assumes "rb_wf tx_queue"
  shows "canonical_decimal (sint v) (decimal (sint v))
    \<and> length (decimal (sint v)) \<le> 11
    \<and> (v = INT32_MIN \<longrightarrow> decimal (sint v) = ''-2147483648'')
    \<and> fst (push_int v tx_queue)
        = (rb_count tx_queue + length (decimal (sint v)) < buffer_size tx_queue)
    \<and> (fst (push_int v tx_queue) \<longrightarrow>
         rb_contents (snd (push_int v tx_queue)) = rb_contents tx_queue @ decimal (sint v))"
proof -
  have e: "emits (push_int v) (decimal (sint v))" by (rule emits_push_int)
  have 1: "rb_contents (snd (push_int v tx_queue)) = rb_contents tx_queue @ decimal (sint v)"
    if "fst (push_int v tx_queue)"
    using e assms that by (simp add: emits_def)
  have 2: "fst (push_int v tx_queue)"
    if "rb_count tx_queue + length (decimal (sint v)) < buffer_size tx_queue"
    using e assms that by (simp add: emits_def)
  have 3: "rb_count tx_queue + length (decimal (sint v)) < buffer_size tx_queue"
    if ok: "fst (push_int v tx_queue)"
  proof -
    have wf: "rb_wf (snd (push_int v tx_queue))"
      and sz: "buffer_size (snd (push_int v tx_queue)) = buffer_size tx_queue"
      using e assms by (simp_all add: emits_def)
    have "rb_count (snd (push_int v tx_queue)) = rb_count tx_queue + length (decimal (sint v))"
      using 1 [OF ok] by (metis length_append length_rb_contents)
    with rb_count_less [OF wf] sz show ?thesis by simp
  qed
  have 4: "fst (push_int v tx_queue)
        = (rb_count tx_queue + length (decimal (sint v)) < buffer_size tx_queue)"
    using 2 3 by blast
  show ?thesis
    using 1 4 canonical_decimal_decimal [of "sint v"] decimal_INT32_MIN length_decimal_sint [of v]
    by simp
qed

theorem push_int_canonical_decimal_witness:
  "rb_wf (ring_buffer_init (replicate 5 NUL) 5)
   \<and> fst (push_int (- 120) (ring_buffer_init (replicate 5 NUL) 5))
   \<and> rb_contents (snd (push_int (- 120) (ring_buffer_init (replicate 5 NUL) 5))) = ''-120''
   \<and> canonical_decimal (- 120) ''-120''
   \<and> \<not> fst (push_int (- 120) (ring_buffer_init (replicate 4 NUL) 4))"
proof -
  let ?tx = "ring_buffer_init (replicate 5 NUL) 5 :: char ring_buffer"
  let ?ty = "ring_buffer_init (replicate 4 NUL) 4 :: char ring_buffer"
  have wf: "rb_wf ?tx" "rb_wf ?ty" by (simp_all add: rb_wf_def ring_buffer_init_def)
  have room: "rb_count ?tx = 0" "buffer_size ?tx = 5" "rb_count ?ty = 0" "buffer_size ?ty = 4"
    by (simp_all add: rb_count_def ring_buffer_init_def)
  have d: "decimal (sint (- 120 :: 32 word)) = ''-120''"
    by (simp add: decimal_def dec_digits.simps digit_char_simps)
  from push_int_canonical_decimal [OF wf(1), of "- 120"]
    push_int_canonical_decimal [OF wf(2), of "- 120"] wf room d
  show ?thesis by simp
qed

subsection \<open>Encoder and parser together\<close>

lemma csv_chars:
  assumes "\<And>x c. x \<in> set xs \<Longrightarrow> c \<in> set x \<Longrightarrow> Q c" and "Q CHR '',''" and "c \<in> set (csv xs)"
  shows "Q c"
  using assms by (cases xs) (auto simp: csv_def split: if_splits)

lemma csv_decimal_no_brace:
  "CHR ''}'' \<notin> set (csv (map (\<lambda>v. decimal (sint v)) vs))"
proof
  assume a: "CHR ''}'' \<in> set (csv (map (\<lambda>v. decimal (sint v)) vs))"
  have "is_digit c \<or> c = CHR ''-'' \<or> c = CHR '',''"
    if "c \<in> set (csv (map (\<lambda>v. decimal (sint v)) vs))" for c
    using _ _ that
  proof (rule csv_chars)
    show "is_digit c \<or> c = CHR ''-'' \<or> c = CHR '',''"
      if "x \<in> set (map (\<lambda>v. decimal (sint v)) vs)" "c \<in> set x" for x c
      using that decimal_chars by auto
  qed simp
  from this [OF a] show False by (simp add: is_digit_def)
qed

lemma read_decimal_decimal: "read_decimal (decimal k) = k"
proof (cases "k < 0")
  case True
  then show ?thesis
    using dec_digits_props [of "nat (- k)"] by (simp add: read_decimal_def decimal_def)
next
  case False
  let ?n = "nat k"
  obtain c ds where cd: "dec_digits ?n = c # ds"
    using dec_digits_props [of ?n] by (cases "dec_digits ?n") auto
  have "is_digit c" using dec_digits_props [of ?n] by (simp add: cd)
  then have "c \<noteq> CHR ''-''" by (auto simp: is_digit_def)
  moreover have "int (dec_value (c # ds)) = k"
    using dec_digits_props [of ?n] False by (simp add: cd [symmetric])
  ultimately show ?thesis using False by (simp add: read_decimal_def decimal_def cd)
qed

lemma split_csv_field:
  "CHR '','' \<notin> set x \<Longrightarrow> split_csv (x @ CHR '','' # s) = x # split_csv s"
  by (induction x) auto

lemma split_csv_last: "CHR '','' \<notin> set x \<Longrightarrow> split_csv x = [x]"
  by (induction x) auto

lemma csv_Cons: "csv (x # y # r) = x @ CHR '','' # csv (y # r)"
  by (simp add: csv_def)

lemma split_csv_csv:
  "xs \<noteq> [] \<Longrightarrow> \<forall>x \<in> set xs. CHR '','' \<notin> set x \<Longrightarrow> split_csv (csv xs) = xs"
proof (induction xs)
  case Nil
  then show ?case by simp
next
  case (Cons x xs)
  show ?case
  proof (cases xs)
    case Nil
    with Cons.prems show ?thesis by (simp add: csv_def split_csv_last)
  next
    case (Cons y r)
    with Cons.IH Cons.prems have "split_csv (csv (y # r)) = y # r" by simp
    with Cons Cons.prems show ?thesis by (simp add: csv_Cons split_csv_field)
  qed
qed

lemma decimal_no_comma: "CHR '','' \<notin> set (decimal k)"
  using decimal_chars [of "CHR '',''" k] by (auto simp: is_digit_def)

lemma read_back_csv:
  "vs \<noteq> [] \<Longrightarrow>
     map read_decimal (split_csv (csv (map (\<lambda>v. decimal (sint v)) vs))) = map sint vs"
proof -
  assume "vs \<noteq> []"
  then have "split_csv (csv (map (\<lambda>v. decimal (sint v)) vs)) = map (\<lambda>v. decimal (sint v)) vs"
    by (intro split_csv_csv) (auto simp: decimal_no_comma)
  then show ?thesis by (simp add: read_decimal_decimal comp_def)
qed

text \<open>
  Claim C1.  Round trip: if \<open>send_int P values count\<close> returns true on an empty TX queue,
  and the enqueued bytes are the content of the RX queue of a parser in \<open>WAIT_START\<close> whose
  scratch buffer can hold the frame and whose frame queue is not full, then \<open>poll\<close>
  returns and has queued exactly one frame, whose path is \<open>P\<close> and whose data is the
  comma-separated decimal rendering of the values; for a non-empty array, reading the
  fields of that rendering back as decimal integers gives the values again.
\<close>

theorem send_int_round_trip:
  assumes "rb_wf tx0" and "rb_contents tx0 = []"
    and "count \<le> length values"
    and "fst (send_int P values count tx0)"
    and "CHR '':'' \<notin> set P"
    and "state s = WAIT_START" and "idx s = 0"
    and "rb_wf (rx_queue s)"
    and "rb_contents (rx_queue s) = rb_contents (snd (send_int P values count tx0))"
    and "length P + length (csv (map (\<lambda>v. decimal (sint v)) (take count values))) + 2 \<le> work_buf_size s"
    and "work_buf_size s \<le> length (workBuffer s)" and "work_buf_size s < 65536"
    and "rb_wf (frame_queue s)" and "\<not> rb_full (frame_queue s)"
  shows "(\<exists>s'. poll s = Some s'
       \<and> one_frame_parsed s s' P (csv (map (\<lambda>v. decimal (sint v)) (take count values))))
     \<and> (0 < count \<longrightarrow>
          map read_decimal (split_csv (csv (map (\<lambda>v. decimal (sint v)) (take count values))))
            = map sint (take count values))"
proof -
  let ?D = "csv (map (\<lambda>v. decimal (sint v)) (take count values))"
  have "emits (send_int P values count) (frame_bytes P ?D)"
    using assms(3) by (rule emits_send_int)
  then have "rb_contents (snd (send_int P values count tx0)) = frame_bytes P ?D"
    using assms(1,2,4) by (simp add: emits_def)
  then have rx: "rb_contents (rx_queue s) = frame_bytes P ?D" using assms(9) by simp
  have 1: "\<exists>s'. poll s = Some s' \<and> one_frame_parsed s s' P ?D"
    using assms(6,7,8) rx assms(5) csv_decimal_no_brace assms(10,11,12,13,14)
    by (rule poll_frame)
  have 2: "map read_decimal (split_csv ?D) = map sint (take count values)" if "0 < count"
    using that assms(3) by (intro read_back_csv) auto
  from 1 2 show ?thesis by blast
qed

theorem send_int_round_trip_witness:
  "fst (send_int ''m/x'' [12, - 3] 2 (ring_buffer_init (replicate 32 NUL) 32))
   \<and> (\<exists>s'. poll (cmnd_parser_init
          (snd (send_int ''m/x'' [12, - 3] 2 (ring_buffer_init (replicate 32 NUL) 32)))
          (ring_buffer_init (replicate 4 empty_frame) 4) (replicate 16 NUL) 16) = Some s'
        \<and> one_frame_parsed (cmnd_parser_init
          (snd (send_int ''m/x'' [12, - 3] 2 (ring_buffer_init (replicate 32 NUL) 32)))
          (ring_buffer_init (replicate 4 empty_frame) 4) (replicate 16 NUL) 16) s' ''m/x'' ''12,-3'')
   \<and> map read_decimal (split_csv ''12,-3'') = map sint [12, - 3 :: 32 word]"
proof -
  let ?tx0 = "ring_buffer_init (replicate 32 NUL) 32 :: char ring_buffer"
  let ?tx1 = "snd (send_int ''m/x'' [12, - 3] 2 ?tx0)"
  let ?s = "cmnd_parser_init ?tx1 (ring_buffer_init (replicate 4 empty_frame) 4) (replicate 16 NUL) 16"
  have e: "send_int ''m/x'' [12, - 3] 2 ?tx0
      = (True, \<lparr>buffer = ''{p:m/x:d:12,-3}'' @ replicate 17 NUL, buffer_size = 32, prd = 15, cns = 0\<rparr>)"
    by code_simp
  have d: "csv (map (\<lambda>v. decimal (sint v)) (take 2 [12, - 3 :: 32 word])) = ''12,-3''"
    by (simp add: csv_def decimal_def dec_digits.simps digit_char_simps)
  have h1: "rb_wf ?tx0" "rb_contents ?tx0 = []" "2 \<le> length [12, - 3 :: 32 word]"
    by (simp_all add: rb_init_wf)
  have h2: "fst (send_int ''m/x'' [12, - 3] 2 ?tx0)" by (simp add: e)
  have h3: "CHR '':'' \<notin> set ''m/x''" by simp
  have h4: "state ?s = WAIT_START" "idx ?s = 0" by (simp_all add: cmnd_parser_init_def)
  have h5: "rb_wf (rx_queue ?s)" by (simp add: cmnd_parser_init_def e rb_wf_def)
  have h6: "rb_contents (rx_queue ?s) = rb_contents ?tx1" by (simp add: cmnd_parser_init_def)
  have h7: "length ''m/x'' + length (csv (map (\<lambda>v. decimal (sint v)) (take 2 [12, - 3 :: 32 word]))) + 2
      \<le> work_buf_size ?s"
    unfolding d by (simp add: cmnd_parser_init_def)
  have h8: "work_buf_size ?s \<le> length (workBuffer ?s)" "work_buf_size ?s < 65536"
    "rb_wf (frame_queue ?s)" "\<not> rb_full (frame_queue ?s)"
    by (simp_all add: cmnd_parser_init_def rb_wf_def rb_full_def ring_buffer_init_def)
  from send_int_round_trip [OF h1 h2 h3 h4 h5 h6 h7 h8] h2 show ?thesis
    unfolding d by simp
qed

section \<open>Properties of the command dispatcher\<close>

lemma char_digit_values:
  "char_of (48::nat) = CHR ''0''" "char_of (49::nat) = CHR ''1''" "char_of (50::nat) = CHR ''2''"
  "char_of (51::nat) = CHR ''3''" "char_of (52::nat) = CHR ''4''" "char_of (53::nat) = CHR ''5''"
  "char_of (54::nat) = CHR ''6''" "char_of (55::nat) = CHR ''7''" "char_of (56::nat) = CHR ''8''"
  "char_of (57::nat) = CHR ''9''"
  by code_simp+

lemma is_digit_range: "is_digit c \<longleftrightarrow> 48 \<le> (of_char c :: nat) \<and> (of_char c :: nat) \<le> 57"
proof
  assume "is_digit c"
  then show "48 \<le> (of_char c :: nat) \<and> (of_char c :: nat) \<le> 57"
    by (auto simp: is_digit_def)
next
  assume a: "48 \<le> (of_char c :: nat) \<and> (of_char c :: nat) \<le> 57"
  define n :: nat where "n = of_char c"
  have c: "c = char_of n" by (simp add: n_def)
  from a have "n = 48 \<or> n = 49 \<or> n = 50 \<or> n = 51 \<or> n = 52 \<or> n = 53 \<or> n = 54 \<or> n = 55 \<or> n = 56 \<or> n = 57"
    unfolding n_def by arith
  then show "is_digit c"
    unfolding c by (auto simp: is_digit_def char_digit_values)
qed

lemma detect_type_loop_classify:
  "detect_type_loop d b =
     (if \<exists>c \<in> set d. \<not> (is_digit c \<or> c = CHR ''-'' \<or> c = CHR '','' \<or> c = CHR ''.'')
      then DT_STRING
      else if b \<or> CHR ''.'' \<in> set d then DT_FLOAT else DT_INT)"
proof (induction d arbitrary: b)
  case Nil
  then show ?case by simp
next
  case (Cons c d)
  have r: "((of_char c :: nat) < of_char CHR ''0'' \<or> (of_char CHR ''9'' :: nat) < of_char c) = (\<not> is_digit c)"
    by (auto simp: is_digit_range)
  have nd: "\<not> is_digit CHR ''.''" by (simp add: is_digit_def)
  show ?case
    by (simp only: detect_type_loop.simps r Cons.IH) (auto simp: nd)
qed

lemma detect_type_classify: "detect_type d = classify d"
  by (simp add: detect_type_def classify_def detect_type_loop_classify)

lemma dispatch_skip:
  "\<forall>x \<in> set pre. path x \<noteq> cstr_at mem (cmnd_frame.path frame) \<Longrightarrow>
     dispatch atoi strtof (pre @ rest) frame mem = dispatch atoi strtof rest frame mem"
  by (induction pre) auto

lemma takeWhile_stop:
  "\<not> Q y \<Longrightarrow> takeWhile Q (xs @ y # ys) = takeWhile Q xs"
  by (induction xs) auto

lemma cstr_slice:
  assumes "d + n < length mem" and "mem ! (d + n) = NUL"
  shows "cstr mem d = takeWhile (\<lambda>c. c \<noteq> NUL) (slice mem d n)"
proof -
  have "drop d mem = take n (drop d mem) @ drop n (drop d mem)"
    by (simp only: append_take_drop_id)
  also have "drop n (drop d mem) = mem ! (d + n) # drop (Suc (d + n)) mem"
    using assms(1) by (simp add: Cons_nth_drop_Suc add.commute)
  finally have "drop d mem = slice mem d n @ NUL # drop (Suc (d + n)) mem"
    using assms(2) by (simp add: slice_def)
  then show ?thesis
    unfolding cstr_def by (simp add: takeWhile_stop)
qed

text \<open>
  Claim C7.  The dispatcher reads the payload as a C string.  For a frame with a
  non-empty payload whose terminating NUL lies in the work buffer, \<open>detect_type\<close>
  classifies the bytes of the payload before its first NUL byte (the whole payload when
  it has none): String if one of them is not a digit, \<open>-\<close>, \<open>,\<close> or \<open>.\<close>; otherwise Float
  if there is a \<open>.\<close>, else Int.  When that type is not the expected type of the first
  table entry whose path matches, \<open>poll\<close> consumes the frame and calls no handler.
\<close>

theorem type_mismatch_drop:
  assumes "pop frame_buffer = (Some frame, fq)"
    and "take path_count path_table = pre @ e # post"
    and "\<forall>x \<in> set pre. path x \<noteq> cstr_at mem (cmnd_frame.path frame)"
    and "path e = cstr_at mem (cmnd_frame.path frame)"
    and "cmnd_frame.data frame = Some d" and "cmnd_frame.data_len frame \<noteq> 0"
    and "d + cmnd_frame.data_len frame < length mem"
    and "mem ! (d + cmnd_frame.data_len frame) = NUL"
  shows "let payload = slice mem d (cmnd_frame.data_len frame);
             seen = takeWhile (\<lambda>c. c \<noteq> NUL) payload
         in detect_type (cstr mem d) = classify seen
            \<and> (NUL \<notin> set payload \<longrightarrow> seen = payload)
            \<and> (classify seen \<noteq> expected_type e \<longrightarrow>
                 executer_poll atoi strtof path_table path_count mem frame_buffer = (fq, mem, None))"
proof -
  let ?seen = "takeWhile (\<lambda>c. c \<noteq> NUL) (slice mem d (cmnd_frame.data_len frame))"
  have s: "cstr mem d = ?seen" using assms(7,8) by (rule cstr_slice)
  have 1: "detect_type (cstr mem d) = classify ?seen"
    unfolding s by (rule detect_type_classify)
  have 2: "NUL \<notin> set (slice mem d (cmnd_frame.data_len frame)) \<longrightarrow>
      ?seen = slice mem d (cmnd_frame.data_len frame)"
    by (auto simp: takeWhile_eq_all_conv)
  have "dispatch atoi strtof (take path_count path_table) frame mem
      = dispatch atoi strtof (e # post) frame mem"
    unfolding assms(2) using assms(3) by (rule dispatch_skip)
  moreover have "classify ?seen \<noteq> expected_type e \<Longrightarrow>
      dispatch atoi strtof (e # post) frame mem = (mem, None)"
    using assms(4,5,6) 1 by (simp add: cstr_at_def Let_def)
  ultimately have 3: "classify ?seen \<noteq> expected_type e \<longrightarrow>
      executer_poll atoi strtof path_table path_count mem frame_buffer = (fq, mem, None)"
    using assms(1) by (simp add: executer_poll_def)
  show ?thesis using 1 2 3 by (simp add: Let_def)
qed

theorem type_mismatch_drop_witness:
  "classify ''abc'' = DT_STRING
   \<and> executer_poll atoi_c strtof_unused
        [\<lparr>path = ''m/x'', expected_type = DT_INT, handler = ''set_speed''\<rparr>] 1
        (''m/x'' @ [NUL] @ ''abc'' @ [NUL])
        \<lparr>buffer = [\<lparr>cmnd_frame.path = Some 0, path_len = 3, data = Some 4, data_len = 3\<rparr>, empty_frame],
          buffer_size = 2, prd = 1, cns = 0\<rparr>
     = (\<lparr>buffer = [\<lparr>cmnd_frame.path = Some 0, path_len = 3, data = Some 4, data_len = 3\<rparr>, empty_frame],
          buffer_size = 2, prd = 1, cns = 1\<rparr>,
        ''m/x'' @ [NUL] @ ''abc'' @ [NUL], None)"
proof -
  let ?frame = "\<lparr>cmnd_frame.path = Some 0, path_len = 3, data = Some 4, data_len = 3\<rparr>"
  let ?fb = "\<lparr>buffer = [?frame, empty_frame], buffer_size = 2, prd = 1, cns = 0\<rparr>"
  let ?mem = "''m/x'' @ [NUL] @ ''abc'' @ [NUL]"
  let ?e = "\<lparr>path = ''m/x'', expected_type = DT_INT, handler = ''set_speed''\<rparr>"
  have p: "pop ?fb = (Some ?frame, ?fb\<lparr>cns := 1\<rparr>)" by (simp add: pop_def)
  have t: "take 1 [?e] = [] @ ?e # []" by simp
  have n: "\<forall>x \<in> set []. path x \<noteq> cstr_at ?mem (cmnd_frame.path ?frame)" by simp
  have m: "path ?e = cstr_at ?mem (cmnd_frame.path ?frame)" by (simp add: cstr_def cstr_at_def)
  have d: "cmnd_frame.data ?frame = Some 4" "cmnd_frame.data_len ?frame \<noteq> 0"
    "4 + cmnd_frame.data_len ?frame < length ?mem" "?mem ! (4 + cmnd_frame.data_len ?frame) = NUL"
    by simp_all
  have sl: "slice ?mem 4 (cmnd_frame.data_len ?frame) = ''abc''" by (simp add: slice_def)
  have k: "classify ''abc'' = DT_STRING" by (simp add: classify_def is_digit_def)
  from type_mismatch_drop [OF p t n m d, of atoi_c strtof_unused] k
  show ?thesis unfolding sl by (simp add: Let_def)
qed

text \<open>
  The payload \<open>12\<close>, NUL, \<open>ab\<close> of five bytes, as the parser queues it from the bytes
  \<open>{p:m:d:12\<close>, NUL, \<open>ab}\<close>: it has characters that are not digits, so the classification
  of all its bytes is String, but the scan stops at the NUL byte, the type found is Int
  and the handler of an entry that expects Int is called with the value 12.
\<close>

theorem type_mismatch_drop_counterexample:
  "classify (slice (''m'' @ [NUL] @ ''12'' @ [NUL] @ ''ab'' @ [NUL]) 2 5) = DT_STRING
   \<and> executer_poll atoi_c strtof_unused
        [\<lparr>path = ''m'', expected_type = DT_INT, handler = ''set_speed''\<rparr>] 1
        (''m'' @ [NUL] @ ''12'' @ [NUL] @ ''ab'' @ [NUL])
        \<lparr>buffer = [\<lparr>cmnd_frame.path = Some 0, path_len = 1, data = Some 2, data_len = 5\<rparr>, empty_frame],
          buffer_size = 2, prd = 1, cns = 0\<rparr>
     = (\<lparr>buffer = [\<lparr>cmnd_frame.path = Some 0, path_len = 1, data = Some 2, data_len = 5\<rparr>, empty_frame],
          buffer_size = 2, prd = 1, cns = 1\<rparr>,
        ''m'' @ [NUL] @ ''12'' @ [NUL] @ ''ab'' @ [NUL],
        Some (''set_speed'', DT_INT, IntValues [12], 1))
   \<and> map_option frame_queue
        (poll (cmnd_parser_init
          (snd (snd (run_ops (map Push (''{p:m:d:12'' @ [NUL] @ ''ab}''))
             (ring_buffer_init (replicate 16 NUL) 16))))
          (ring_buffer_init (replicate 2 empty_frame) 2) (replicate 8 (CHR ''#'')) 8))
     = Some \<lparr>buffer = [\<lparr>cmnd_frame.path = Some 0, path_len = 1, data = Some 2, data_len = 5\<rparr>, empty_frame],
          buffer_size = 2, prd = 1, cns = 0\<rparr>
   \<and> map_option workBuffer
        (poll (cmnd_parser_init
          (snd (snd (run_ops (map Push (''{p:m:d:12'' @ [NUL] @ ''ab}''))
             (ring_buffer_init (replicate 16 NUL) 16))))
          (ring_buffer_init (replicate 2 empty_frame) 2) (replicate 8 (CHR ''#'')) 8))
     = Some (''m'' @ [NUL] @ ''12'' @ [NUL] @ ''ab'' @ [NUL])"
  by code_simp

text \<open>
  Claim C8.  CSV bounding: a matched payload of more than \<open>MAX_CSV_ITEMS = 8\<close> fields is
  to reach the handler once, with count 8 and the first eight fields only.  For the
  String payload \<open>a,b,c,d,e,f,g,h,i\<close> the handler is called once with count 8, but
  \<open>parse_string_csv\<close> stops splitting after the seventh comma, so the eighth string runs
  to the end of the payload and is \<open>h,i\<close>: the ninth field reaches the handler.
\<close>

theorem parse_string_csv_ninth_field:
  "executer_poll (\<lambda>f. 0 :: int) (\<lambda>f. 0 :: rat)
        [\<lparr>path = ''log'', expected_type = DT_STRING, handler = ''print''\<rparr>] 1
        (''log'' @ [NUL] @ ''a,b,c,d,e,f,g,h,i'' @ [NUL])
        \<lparr>buffer = [\<lparr>cmnd_frame.path = Some 0, path_len = 3, data = Some 4, data_len = 17\<rparr>, empty_frame],
          buffer_size = 2, prd = 1, cns = 0\<rparr>
     = (\<lparr>buffer = [\<lparr>cmnd_frame.path = Some 0, path_len = 3, data = Some 4, data_len = 17\<rparr>, empty_frame],
          buffer_size = 2, prd = 1, cns = 1\<rparr>,
        ''log'' @ [NUL] @ ''a'' @ [NUL] @ ''b'' @ [NUL] @ ''c'' @ [NUL] @ ''d'' @ [NUL] @ ''e'' @ [NUL]
          @ ''f'' @ [NUL] @ ''g'' @ [NUL] @ ''h,i'' @ [NUL],
        Some (''print'', DT_STRING, StringValues [''a'', ''b'', ''c'', ''d'', ''e'', ''f'', ''g'', ''h,i''], 8))"
  by code_simp

section \<open>Float encoding\<close>

text \<open>
  Claim C3.  Float encoding is to compute the rounding carry before any digit is
  emitted, so that a fractional part that rounds up to 1000 increments the integer
  digits.  \<open>push_float\<close> sends the integer part first and increments \<open>int_part\<close> afterwards:
  for \<open>1.99951171875\<close> (\<open>4095/2048\<close>, exact in binary32 like every intermediate value of
  this run) the queue receives \<open>1.000\<close>, not \<open>2.000\<close>; \<open>1.9995f\<close> gives \<open>1.000\<close> and
  \<open>3.9999f\<close> gives \<open>3.000\<close> as well.
\<close>

theorem push_float_carry_after_emission:
  "push_float (4095 / 2048) (ring_buffer_init (replicate 16 NUL) 16)
     = (True, \<lparr>buffer = ''1.000'' @ replicate 11 NUL, buffer_size = 16, prd = 5, cns = 0\<rparr>)
   \<and> rb_contents (snd (push_float (4095 / 2048) (ring_buffer_init (replicate 16 NUL) 16))) = ''1.000''
   \<and> rb_contents (snd (push_float (3999 / 2000) (ring_buffer_init (replicate 16 NUL) 16))) = ''1.000''
   \<and> rb_contents (snd (push_float (39999 / 10000) (ring_buffer_init (replicate 16 NUL) 16))) = ''3.000''"
  by code_simp

text \<open>Runs in which the binary32 rounding of the product decides the digits:
  \<open>0.9995f * 1000.0f\<close> is rounded up to \<open>999.5\<close>, and \<open>0.0095f * 1000.0f + 0.5f\<close> reaches
  \<open>10\<close>.\<close>

lemma push_float_binary32_examples:
  "rb_contents (snd (push_float (9995 / 10000) (ring_buffer_init (replicate 16 NUL) 16))) = ''0.000''
   \<and> rb_contents (snd (push_float (95 / 10000) (ring_buffer_init (replicate 16 NUL) 16))) = ''0.010''
   \<and> rb_contents (snd (push_float (- 1 / 2) (ring_buffer_init (replicate 16 NUL) 16))) = ''-0.500''"
  by code_simp

end
